theory Spec2Isabelle
  imports Main "HOL-Library.Product_Lexorder" "HOL-Library.Sublist"
begin

section \<open>Data model (server/db/schemas)\<close>

text \<open>
  A row identifier is a UUID and the database orders UUIDs as 128-bit numbers. A
  timestamp column is a PostgreSQL \<open>timestamp\<close>: a number of microseconds, which
  \<open>defaultNow()\<close> fills from the database clock. Both are natural numbers here.

  The driver hands a stored timestamp to JavaScript as a \<open>Date\<close>, which holds whole
  milliseconds: \<open>js_Date\<close> drops the microseconds. A \<open>Date\<close> is written here as the
  timestamp it stands for, a multiple of 1000; \<open>toISOString\<close> followed by
  \<open>z.coerce.date\<close> gives the same \<open>Date\<close> back, and a \<open>Date\<close> sent to the database
  is compared and stored as that timestamp.
\<close>

type_synonym uuid = nat
type_synonym timestamp = nat

definition js_Date :: "timestamp \<Rightarrow> timestamp" where
  "js_Date t = (t div 1000) * 1000"

record user =
  users_id :: uuid
  users_clerkUserId :: string
  users_username :: string
  users_primaryEmail :: "string option"
  users_firstName :: "string option"
  users_lastName :: "string option"
  users_createdAt :: timestamp
  users_updatedAt :: timestamp

record thread =
  threads_id :: uuid
  threads_name :: "string option"
  threads_createdAt :: timestamp
  threads_updatedAt :: timestamp
  threads_lastMessageAt :: timestamp

text \<open>
  The surrogate key \<open>id\<close> of \<open>thread_participants\<close> is generated by the database and
  read by no operation; the row keeps the three columns the routers use.
\<close>

record threadParticipant =
  threadParticipants_threadId :: uuid
  threadParticipants_userId :: uuid
  threadParticipants_joinedAt :: timestamp

record message =
  messages_id :: uuid
  messages_threadId :: uuid
  messages_senderId :: uuid
  messages_content :: string
  messages_createdAt :: timestamp
  messages_updatedAt :: timestamp
  messages_editedAt :: "timestamp option"
  messages_isDeleted :: bool

record db =
  users :: "user list"
  threads :: "thread list"
  threadParticipants :: "threadParticipant list"
  messages :: "message list"

datatype trpc_error =
  NOT_FOUND | FORBIDDEN | BAD_REQUEST | UNAUTHORIZED | INTERNAL_SERVER_ERROR

text \<open>
  The constraints the schemas declare: primary keys, the unique pair of
  \<open>thread_participants\<close>, and the foreign keys of messages and participants.
\<close>

definition db_ok :: "db \<Rightarrow> bool" where
  "db_ok d \<longleftrightarrow>
     distinct (map users_id (users d)) \<and>
     distinct (map threads_id (threads d)) \<and>
     distinct (map messages_id (messages d)) \<and>
     distinct (map (\<lambda>p. (threadParticipants_threadId p, threadParticipants_userId p))
                   (threadParticipants d)) \<and>
     list_all (\<lambda>m. messages_senderId m \<in> set (map users_id (users d)) \<and>
                    messages_threadId m \<in> set (map threads_id (threads d))) (messages d) \<and>
     list_all (\<lambda>p. threadParticipants_userId p \<in> set (map users_id (users d)) \<and>
                    threadParticipants_threadId p \<in> set (map threads_id (threads d)))
              (threadParticipants d)"

section \<open>Messages router (server/api/routers/messages)\<close>

text \<open>
  Every resolver below runs after its zod schema has accepted the input and after
  \<open>protectedProcedure\<close> has found an authenticated caller, whose internal user id is
  \<open>caller\<close>. A mutation returns its outcome together with the database it leaves behind.
  Publishing to Pusher happens after the writes, its failure is caught and logged, and it
  changes neither the outcome nor the database, so it has no part in the model.
\<close>

definition thread_rows :: "db \<Rightarrow> uuid \<Rightarrow> thread list" where
  "thread_rows d threadId = take 1 (filter (\<lambda>t. threads_id t = threadId) (threads d))"

definition participation :: "db \<Rightarrow> uuid \<Rightarrow> uuid \<Rightarrow> threadParticipant list" where
  "participation d threadId userId =
     take 1 (filter (\<lambda>p. threadParticipants_threadId p = threadId \<and>
                          threadParticipants_userId p = userId) (threadParticipants d))"

record message_out =
  out_id :: uuid
  out_content :: string
  out_createdAt :: timestamp
  out_updatedAt :: timestamp
  out_editedAt :: "timestamp option"
  out_isDeleted :: bool
  out_sender_id :: uuid
  out_sender_username :: string

record cursor =
  cursor_id :: uuid
  cursor_createdAt :: timestamp

definition select_message :: "message \<times> user \<Rightarrow> message_out" where
  "select_message r =
     \<lparr>out_id = messages_id (fst r), out_content = messages_content (fst r),
      out_createdAt = js_Date (messages_createdAt (fst r)),
      out_updatedAt = js_Date (messages_updatedAt (fst r)),
      out_editedAt = map_option js_Date (messages_editedAt (fst r)),
      out_isDeleted = messages_isDeleted (fst r),
      out_sender_id = users_id (snd r), out_sender_username = users_username (snd r)\<rparr>"

definition messages_join_users :: "db \<Rightarrow> (message \<times> user) list" where
  "messages_join_users d =
     concat (map (\<lambda>m. map (Pair m) (filter (\<lambda>u. messages_senderId m = users_id u) (users d)))
                 (messages d))"

definition baseCondition :: "uuid \<Rightarrow> message \<Rightarrow> bool" where
  "baseCondition threadId m \<longleftrightarrow> messages_threadId m = threadId \<and> messages_isDeleted m = False"

definition cursorCondition :: "cursor \<Rightarrow> message \<Rightarrow> bool" where
  "cursorCondition c m \<longleftrightarrow>
     messages_createdAt m < cursor_createdAt c \<or>
     (messages_createdAt m = cursor_createdAt c \<and> messages_id m < cursor_id c)"

definition whereClause :: "uuid \<Rightarrow> cursor option \<Rightarrow> message \<Rightarrow> bool" where
  "whereClause threadId cur m =
     (case cur of
        Some c \<Rightarrow> baseCondition threadId m \<and> cursorCondition c m
      | None \<Rightarrow> baseCondition threadId m)"

text \<open>
  \<open>orderBy(desc(createdAt), desc(id))\<close>: the key is the pair, compared lexicographically;
  the primary key makes the keys of different rows different, so the order is total.
\<close>

definition order_key :: "message \<times> user \<Rightarrow> timestamp \<times> uuid" where
  "order_key r = (messages_createdAt (fst r), messages_id (fst r))"

definition orderBy_desc :: "(message \<times> user) list \<Rightarrow> (message \<times> user) list" where
  "orderBy_desc rows = rev (sort_key order_key rows)"

text \<open>
  \<open>limit\<close> is a whole number, as the \<open>limit\<close> clause of the query takes it. The
  schema is \<open>z.number().min(1).max(100)\<close> and lets a fraction through to the query;
  what the database answers to a fractional limit is not part of this model.
\<close>

definition messages_list ::
  "db \<Rightarrow> uuid \<Rightarrow> uuid \<Rightarrow> nat \<Rightarrow> cursor option \<Rightarrow>
   trpc_error + (message_out list \<times> cursor option)" where
  "messages_list d caller threadId limit cur =
     (if thread_rows d threadId = [] then Inl NOT_FOUND
      else if participation d threadId caller = [] then Inl FORBIDDEN
      else
        let messageList =
              map select_message
                (take (limit + 1)
                  (orderBy_desc
                    (filter (\<lambda>r. whereClause threadId cur (fst r)) (messages_join_users d))));
            hasMore = (length messageList > limit);
            trimmedMessages = (if hasMore then butlast messageList else messageList);
            chronologicalMessages = rev trimmedMessages;
            nextCursor =
              (if hasMore \<and> length trimmedMessages > 0
               then Some \<lparr>cursor_id = out_id (last trimmedMessages),
                          cursor_createdAt = out_createdAt (last trimmedMessages)\<rparr>
               else None)
        in Inr (chronologicalMessages, nextCursor))"

text \<open>
  \<open>send\<close>: \<open>newId\<close> is the UUID the database draws for the row, \<open>t_insert\<close> its
  \<open>defaultNow()\<close>, \<open>t_last\<close> the later \<open>new Date()\<close> written to the thread. An insert
  that breaks the primary key or the sender's foreign key raises a database error, which
  reaches the caller as an internal error.
\<close>

definition messages_send ::
  "db \<Rightarrow> uuid \<Rightarrow> uuid \<Rightarrow> string \<Rightarrow> uuid \<Rightarrow> timestamp \<Rightarrow> timestamp \<Rightarrow>
   (trpc_error + message_out option) \<times> db" where
  "messages_send d caller threadId content newId t_insert t_last =
     (if thread_rows d threadId = [] then (Inl NOT_FOUND, d)
      else if participation d threadId caller = [] then (Inl FORBIDDEN, d)
      else if newId \<in> set (map messages_id (messages d)) \<or>
              caller \<notin> set (map users_id (users d))
      then (Inl INTERNAL_SERVER_ERROR, d)
      else
        let message = \<lparr>messages_id = newId, messages_threadId = threadId,
                        messages_senderId = caller, messages_content = content,
                        messages_createdAt = t_insert, messages_updatedAt = t_insert,
                        messages_editedAt = None, messages_isDeleted = False\<rparr>;
            d1 = d\<lparr>messages := messages d @ [message]\<rparr>;
            d2 = d1\<lparr>threads :=
                      map (\<lambda>t. if threads_id t = threadId
                                then t\<lparr>threads_lastMessageAt := t_last\<rparr> else t)
                          (threads d1)\<rparr>;
            fullMessage =
              map select_message
                (take 1 (filter (\<lambda>r. messages_id (fst r) = newId) (messages_join_users d2)))
        in (Inr (case fullMessage of [] \<Rightarrow> None | rawMessage # _ \<Rightarrow> Some rawMessage), d2))"

definition messages_getLatest ::
  "db \<Rightarrow> uuid \<Rightarrow> uuid \<Rightarrow> nat \<Rightarrow> trpc_error + message_out list" where
  "messages_getLatest d caller threadId limit =
     (if thread_rows d threadId = [] then Inl NOT_FOUND
      else if participation d threadId caller = [] then Inl FORBIDDEN
      else
        let latestMessages =
              map select_message
                (take limit
                  (orderBy_desc
                    (filter (\<lambda>r. messages_threadId (fst r) = threadId \<and>
                                 messages_isDeleted (fst r) = False)
                            (messages_join_users d))));
            chronological = rev latestMessages
        in Inr chronological)"

datatype success = Success

text \<open>
  \<open>edit\<close> reads the clock twice, once for \<open>editedAt\<close> and once for \<open>updatedAt\<close>.
\<close>

definition messages_edit ::
  "db \<Rightarrow> uuid \<Rightarrow> uuid \<Rightarrow> string \<Rightarrow> timestamp \<Rightarrow> timestamp \<Rightarrow>
   (trpc_error + success) \<times> db" where
  "messages_edit d caller messageId content t_edited t_updated =
     (case take 1 (filter (\<lambda>m. messages_id m = messageId) (messages d)) of
        [] \<Rightarrow> (Inl NOT_FOUND, d)
      | existingMessage # _ \<Rightarrow>
          if messages_senderId existingMessage \<noteq> caller then (Inl FORBIDDEN, d)
          else if messages_isDeleted existingMessage then (Inl BAD_REQUEST, d)
          else
            (Inr Success,
             d\<lparr>messages :=
                 map (\<lambda>m. if messages_id m = messageId
                           then m\<lparr>messages_content := content,
                                  messages_editedAt := Some t_edited,
                                  messages_updatedAt := t_updated\<rparr>
                           else m)
                     (messages d)\<rparr>))"

definition messages_delete ::
  "db \<Rightarrow> uuid \<Rightarrow> uuid \<Rightarrow> timestamp \<Rightarrow> (trpc_error + success) \<times> db" where
  "messages_delete d caller messageId now =
     (case take 1 (filter (\<lambda>m. messages_id m = messageId) (messages d)) of
        [] \<Rightarrow> (Inl NOT_FOUND, d)
      | existingMessage # _ \<Rightarrow>
          if messages_senderId existingMessage \<noteq> caller then (Inl FORBIDDEN, d)
          else if messages_isDeleted existingMessage then (Inl BAD_REQUEST, d)
          else
            (Inr Success,
             d\<lparr>messages :=
                 map (\<lambda>m. if messages_id m = messageId
                           then m\<lparr>messages_isDeleted := True, messages_updatedAt := now\<rparr>
                           else m)
                     (messages d)\<rparr>))"

section \<open>Threads router (server/api/routers/threads)\<close>

text \<open>
  \<open>[...new Set(xs)]\<close> keeps the first occurrence of every element, in order.
\<close>

fun js_Set :: "'a list \<Rightarrow> 'a list \<Rightarrow> 'a list" where
  "js_Set seen [] = rev seen"
| "js_Set seen (x # xs) = (if x \<in> set seen then js_Set seen xs else js_Set (x # seen) xs)"

text \<open>
  \<open>create\<close>: \<open>newId\<close> is the UUID the database draws for the thread and \<open>now\<close> its
  \<open>defaultNow()\<close>. The two inserts are separate statements outside any transaction: a
  participant insert that breaks a foreign key or the unique pair raises a database error
  after the thread row is already stored. The routine then reads the participants back
  and publishes one event per participant; neither changes the outcome.
\<close>

text \<open>
  A thread row handed back by \<open>returning()\<close> or \<open>select()\<close> carries its three
  timestamps as \<open>Date\<close>s.
\<close>

definition returned_thread :: "thread \<Rightarrow> thread" where
  "returned_thread t =
     t\<lparr>threads_createdAt := js_Date (threads_createdAt t),
       threads_updatedAt := js_Date (threads_updatedAt t),
       threads_lastMessageAt := js_Date (threads_lastMessageAt t)\<rparr>"

definition threads_create ::
  "db \<Rightarrow> uuid \<Rightarrow> string option \<Rightarrow> uuid list \<Rightarrow> uuid \<Rightarrow> timestamp \<Rightarrow>
   (trpc_error + thread) \<times> db" where
  "threads_create d caller name participantIds newId now =
     (let existingUsers = filter (\<lambda>u. users_id u \<in> set participantIds) (users d) in
      if length existingUsers \<noteq> length participantIds then (Inl BAD_REQUEST, d)
      else if newId \<in> set (map threads_id (threads d)) then (Inl INTERNAL_SERVER_ERROR, d)
      else
        let thread = \<lparr>threads_id = newId, threads_name = name, threads_createdAt = now,
                       threads_updatedAt = now, threads_lastMessageAt = now\<rparr>;
            d1 = d\<lparr>threads := threads d @ [thread]\<rparr>;
            allParticipantIds = participantIds @ [caller];
            uniqueParticipantIds = js_Set [] allParticipantIds
        in if list_ex (\<lambda>userId. userId \<notin> set (map users_id (users d1)) \<or>
                                 participation d1 newId userId \<noteq> []) uniqueParticipantIds
           then (Inl INTERNAL_SERVER_ERROR, d1)
           else (Inr (returned_thread thread),
                 d1\<lparr>threadParticipants :=
                      threadParticipants d1 @
                      map (\<lambda>userId. \<lparr>threadParticipants_threadId = newId,
                                      threadParticipants_userId = userId,
                                      threadParticipants_joinedAt = now\<rparr>)
                          uniqueParticipantIds\<rparr>))"

record participant_out =
  participant_id :: uuid
  participant_username :: string
  participant_joinedAt :: timestamp

definition thread_participants_out :: "db \<Rightarrow> uuid \<Rightarrow> participant_out list" where
  "thread_participants_out d threadId =
     concat (map (\<lambda>p. map (\<lambda>u. \<lparr>participant_id = users_id u,
                                 participant_username = users_username u,
                                 participant_joinedAt =
                                   js_Date (threadParticipants_joinedAt p)\<rparr>)
                           (filter (\<lambda>u. threadParticipants_userId p = users_id u) (users d)))
                 (filter (\<lambda>p. threadParticipants_threadId p = threadId)
                         (threadParticipants d)))"

definition threads_getById ::
  "db \<Rightarrow> uuid \<Rightarrow> uuid \<Rightarrow> trpc_error + (thread \<times> participant_out list)" where
  "threads_getById d caller input =
     (if participation d input caller = [] then Inl FORBIDDEN
      else case thread_rows d input of
        [] \<Rightarrow> Inl NOT_FOUND
      | t # _ \<Rightarrow> Inr (returned_thread t, thread_participants_out d input))"

text \<open>
  \<open>addParticipant\<close> never reads the threads table; the insert at its end is where the
  foreign key to the thread is checked by the database.
\<close>

definition threads_addParticipant ::
  "db \<Rightarrow> uuid \<Rightarrow> uuid \<Rightarrow> uuid \<Rightarrow> timestamp \<Rightarrow> (trpc_error + success) \<times> db" where
  "threads_addParticipant d caller threadId userId now =
     (if participation d threadId caller = [] then (Inl FORBIDDEN, d)
      else if take 1 (filter (\<lambda>u. users_id u = userId) (users d)) = []
      then (Inl NOT_FOUND, d)
      else if participation d threadId userId \<noteq> [] then (Inl BAD_REQUEST, d)
      else if threadId \<notin> set (map threads_id (threads d))
      then (Inl INTERNAL_SERVER_ERROR, d)
      else (Inr Success,
            d\<lparr>threadParticipants :=
                threadParticipants d @
                [\<lparr>threadParticipants_threadId = threadId,
                  threadParticipants_userId = userId,
                  threadParticipants_joinedAt = now\<rparr>]\<rparr>))"

section \<open>Users router (server/api/routers/users)\<close>

text \<open>
  A drizzle filter (\<open>ilike(...)\<close>, \<open>ne(...)\<close>) is an SQL object. JavaScript's
  \<open>a && b\<close> evaluates to \<open>b\<close> when \<open>a\<close> is truthy and to \<open>a\<close> otherwise, and
  every object is truthy.
\<close>

datatype sql = Ilike_username string | Ne_id uuid

definition js_truthy :: "sql \<Rightarrow> bool" where
  "js_truthy s = True"

definition js_and :: "sql \<Rightarrow> sql \<Rightarrow> sql" where
  "js_and a b = (if js_truthy a then b else a)"

text \<open>
  Strings are lists of 8-bit characters; \<open>toLowerCase\<close> maps \<open>A\<close> to \<open>Z\<close> to
  \<open>a\<close> to \<open>z\<close> and leaves every other character.
\<close>

definition toLowerCase :: "string \<Rightarrow> string" where
  "toLowerCase s =
     map (\<lambda>c. if 65 \<le> (of_char c :: nat) \<and> (of_char c :: nat) \<le> 90
               then char_of ((of_char c :: nat) + 32) else c) s"

text \<open>
  SQL \<open>LIKE\<close>: \<open>%\<close> stands for any run of characters, \<open>_\<close> for any one character.
\<close>

fun like :: "string \<Rightarrow> string \<Rightarrow> bool" where
  "like [] s = (s = [])"
| "like (p # ps) [] = (p = CHR ''%'' \<and> like ps [])"
| "like (p # ps) (c # cs) =
     (if p = CHR ''%'' then like ps (c # cs) \<or> like (p # ps) cs
      else if p = CHR ''_'' then like ps cs
      else p = c \<and> like ps cs)"

fun sql_holds :: "sql \<Rightarrow> user \<Rightarrow> bool" where
  "sql_holds (Ilike_username pattern) u =
     like (toLowerCase pattern) (toLowerCase (users_username u))"
| "sql_holds (Ne_id i) u = (users_id u \<noteq> i)"

record user_out =
  user_out_id :: uuid
  user_out_username :: string
  user_out_firstName :: "string option"
  user_out_lastName :: "string option"
  user_out_primaryEmail :: "string option"
  user_out_createdAt :: timestamp

definition select_user :: "user \<Rightarrow> user_out" where
  "select_user u =
     \<lparr>user_out_id = users_id u, user_out_username = users_username u,
      user_out_firstName = users_firstName u, user_out_lastName = users_lastName u,
      user_out_primaryEmail = users_primaryEmail u,
      user_out_createdAt = js_Date (users_createdAt u)\<rparr>"

definition users_searchByUsername :: "db \<Rightarrow> uuid \<Rightarrow> string \<Rightarrow> nat \<Rightarrow> user_out list" where
  "users_searchByUsername d caller username limit =
     map select_user
       (take limit
         (filter (sql_holds (js_and (Ilike_username (''%'' @ username @ ''%'')) (Ne_id caller)))
                 (users d)))"

text \<open>The schema \<open>searchUsersSchema\<close>: what a valid query string is.\<close>

definition searchUsersSchema :: "string \<Rightarrow> nat \<Rightarrow> bool" where
  "searchUsersSchema username limit \<longleftrightarrow>
     1 \<le> length username \<and> length username \<le> 50 \<and>
     list_all (\<lambda>c. let n = (of_char c :: nat) in
                     (97 \<le> n \<and> n \<le> 122) \<or> (65 \<le> n \<and> n \<le> 90) \<or> (48 \<le> n \<and> n \<le> 57) \<or>
                     c = CHR ''.'' \<or> c = CHR ''_'' \<or> c = CHR ''-'') username \<and>
     1 \<le> limit \<and> limit \<le> 20"

section \<open>Clerk webhook handlers (server/clerk-webhooks/handlers)\<close>

















definition fallbackUsername :: "string \<Rightarrow> string \<Rightarrow> string" where
  "fallbackUsername baseUsername uuid = take 64 (baseUsername @ ''-'' @ take 6 uuid)"


section \<open>First authentication (server/api/trpc, resolveUser)\<close>



section \<open>Client reconciliation (components/chat/real-time-messages)\<close>

text \<open>
  The client's \<open>Message\<close> and the \<open>MessageEvent\<close> of the fan-out. Identifiers are strings
  here: a placeholder's is \<open>optimistic-\<close> followed by the local clock. The event's
  timestamps are ISO strings written by the server, which
  \<open>new Date(...).toISOString()\<close> returns as they are.
\<close>

record sender =
  sender_id :: string
  sender_username :: string

record Message =
  Message_id :: string
  Message_content :: string
  Message_createdAt :: string
  Message_updatedAt :: string
  Message_editedAt :: "string option"
  Message_isDeleted :: "bool option"
  Message_sender :: sender

record MessageEvent =
  MessageEvent_id :: string
  MessageEvent_content :: string
  MessageEvent_createdAt :: string
  MessageEvent_updatedAt :: string
  MessageEvent_threadId :: string
  MessageEvent_sender :: sender

definition newMessage_of :: "MessageEvent \<Rightarrow> Message" where
  "newMessage_of messageEvent =
     \<lparr>Message_id = MessageEvent_id messageEvent,
      Message_content = MessageEvent_content messageEvent,
      Message_createdAt = MessageEvent_createdAt messageEvent,
      Message_updatedAt = MessageEvent_updatedAt messageEvent,
      Message_editedAt = None, Message_isDeleted = None,
      Message_sender = MessageEvent_sender messageEvent\<rparr>"

definition is_optimistic_match :: "Message \<Rightarrow> Message \<Rightarrow> bool" where
  "is_optimistic_match newMessage msg \<longleftrightarrow>
     prefix ''optimistic-'' (Message_id msg) \<and>
     Message_content msg = Message_content newMessage \<and>
     sender_id (Message_sender msg) = sender_id (Message_sender newMessage)"

fun findIndex :: "('a \<Rightarrow> bool) \<Rightarrow> 'a list \<Rightarrow> nat option" where
  "findIndex P [] = None"
| "findIndex P (x # xs) =
     (if P x then Some 0 else map_option Suc (findIndex P xs))"

definition handleNewMessage :: "MessageEvent \<Rightarrow> Message list \<Rightarrow> Message list" where
  "handleNewMessage messageEvent prev =
     (let newMessage = newMessage_of messageEvent;
          exists = list_ex (\<lambda>msg. Message_id msg = Message_id newMessage) prev
      in if exists then prev
         else case findIndex (is_optimistic_match newMessage) prev of
                Some optimisticIndex \<Rightarrow> prev[optimisticIndex := newMessage]
              | None \<Rightarrow> prev @ [newMessage])"

section \<open>Vocabulary of the properties\<close>

text \<open>
  A thread exists when the table has a row with its id; a user takes part in a thread
  when \<open>thread_participants\<close> has the pair; \<open>participant_ids\<close> lists the users of a
  thread's participant rows, in table order.
\<close>

definition thread_exists :: "db \<Rightarrow> uuid \<Rightarrow> bool" where
  "thread_exists d threadId \<longleftrightarrow> threadId \<in> set (map threads_id (threads d))"

definition is_participant :: "db \<Rightarrow> uuid \<Rightarrow> uuid \<Rightarrow> bool" where
  "is_participant d threadId userId \<longleftrightarrow>
     (threadId, userId) \<in>
       set (map (\<lambda>p. (threadParticipants_threadId p, threadParticipants_userId p))
                (threadParticipants d))"

definition participant_ids :: "db \<Rightarrow> uuid \<Rightarrow> uuid list" where
  "participant_ids d threadId =
     map threadParticipants_userId
       (filter (\<lambda>p. threadParticipants_threadId p = threadId) (threadParticipants d))"

text \<open>
  \<open>query_rows\<close> is the select of \<open>messages.list\<close> before its \<open>limit\<close>;
  \<open>cursor_of\<close> is the cursor the resolver builds from a returned row; \<open>below\<close> is
  the cursor's part of the where clause. \<open>thread_messages\<close> are the non-deleted
  messages of a thread in increasing order of (createdAt, id).
\<close>

definition query_rows ::
  "db \<Rightarrow> uuid \<Rightarrow> cursor option \<Rightarrow> (message \<times> user) list" where
  "query_rows d threadId cur =
     orderBy_desc (filter (\<lambda>r. whereClause threadId cur (fst r)) (messages_join_users d))"

definition cursor_of :: "message_out \<Rightarrow> cursor" where
  "cursor_of r = \<lparr>cursor_id = out_id r, cursor_createdAt = out_createdAt r\<rparr>"

definition below :: "cursor option \<Rightarrow> message \<Rightarrow> bool" where
  "below cur m = (case cur of None \<Rightarrow> True | Some c \<Rightarrow> cursorCondition c m)"

definition message_key :: "message \<Rightarrow> timestamp \<times> uuid" where
  "message_key m = (messages_createdAt m, messages_id m)"

definition thread_messages :: "db \<Rightarrow> uuid \<Rightarrow> message list" where
  "thread_messages d threadId =
     sort_key message_key (filter (baseCondition threadId) (messages d))"



text \<open>
  A returned row presents a stored message when it is the projection of that message
  joined with its sender; \<open>newest n\<close> are the last \<open>n\<close> elements of a list; a
  database holds whole milliseconds when no stored \<open>createdAt\<close> of a message has
  microseconds.
\<close>

definition presents :: "db \<Rightarrow> message_out \<Rightarrow> message \<Rightarrow> bool" where
  "presents d r m \<longleftrightarrow>
     list_ex (\<lambda>u. users_id u = messages_senderId m \<and> r = select_message (m, u)) (users d)"

definition newest :: "nat \<Rightarrow> 'a list \<Rightarrow> 'a list" where
  "newest n xs = drop (length xs - n) xs"

definition whole_milliseconds :: "db \<Rightarrow> bool" where
  "whole_milliseconds d \<longleftrightarrow>
     list_all (\<lambda>m. js_Date (messages_createdAt m) = messages_createdAt m) (messages d)"

section \<open>Loading a thread page by page\<close>

text \<open>
  A reader starts \<open>messages.list\<close> without a cursor and calls it again with every
  \<open>nextCursor\<close> it receives until that is null, as the client's \<open>loadOlder\<close>
  does. The pages are collected in the order they arrive, newest page first. Each call
  with a cursor leaves fewer stored messages below the cursor, which is why the loop
  ends.
\<close>

function paginate ::
  "db \<Rightarrow> uuid \<Rightarrow> uuid \<Rightarrow> nat \<Rightarrow> cursor option \<Rightarrow> trpc_error + message_out list list" where
  "paginate d caller threadId limit cur =
     (case messages_list d caller threadId limit cur of
        Inl e \<Rightarrow> Inl e
      | Inr r \<Rightarrow>
          (case snd r of
             None \<Rightarrow> Inr [fst r]
           | Some nextCursor \<Rightarrow>
               (case paginate d caller threadId limit (Some nextCursor) of
                  Inl e \<Rightarrow> Inl e
                | Inr pages \<Rightarrow> Inr (fst r # pages))))"
  by pat_completeness auto
termination
proof (relation "measure (\<lambda>(d, caller, threadId, limit, cur).
          length (filter (below cur) (messages d)))")
  show "wf (measure (\<lambda>(d, caller, threadId, limit, cur).
          length (filter (below cur) (messages d))))"
    by simp
next
  fix d caller threadId limit cur r c
  assume L: "messages_list d caller threadId limit cur = Inr r" and nc: "snd r = Some c"
  define L0 where "L0 = map select_message
      (take (limit + 1) (orderBy_desc
         (filter (\<lambda>r. whereClause threadId cur (fst r)) (messages_join_users d))))"
  define T where "T = (if limit < length L0 then butlast L0 else L0)"
  from L nc have T: "T \<noteq> []"
    and c: "c = \<lparr>cursor_id = out_id (last T), cursor_createdAt = out_createdAt (last T)\<rparr>"
    by (auto simp: messages_list_def Let_def T_def L0_def split: if_splits)
  have "last T \<in> set T" using T by simp
  then have "last T \<in> set L0"
    by (auto simp: T_def dest: in_set_butlastD split: if_splits)
  then obtain q where q: "q \<in> set (messages_join_users d)"
    "whereClause threadId cur (fst q)" "last T = select_message q"
    by (auto simp: L0_def orderBy_desc_def dest!: in_set_takeD)
  let ?m = "fst q"
  have m: "?m \<in> set (messages d)"
    using q(1) by (auto simp: messages_join_users_def)
  have ck: "cursor_id c = messages_id ?m"
    "cursor_createdAt c = js_Date (messages_createdAt ?m)"
    using c q(3) by (simp_all add: select_message_def)
  have le: "js_Date (messages_createdAt ?m) \<le> messages_createdAt ?m"
    by (simp add: js_Date_def)
  have b1: "below cur ?m"
    using q(2) by (auto simp: below_def whereClause_def split: option.splits)
  have b2: "\<not> below (Some c) ?m"
    using le by (auto simp: below_def cursorCondition_def ck)
  have b3: "below cur x" if "below (Some c) x" for x
    using that b1 le by (auto simp: below_def cursorCondition_def ck split: option.splits)
  have "length (filter (below (Some c)) (messages d)) < length (filter (below cur) (messages d))"
  proof -
    have "filter (below (Some c)) (messages d) = filter (below (Some c)) (filter (below cur) (messages d))"
      using b3 by (auto intro: filter_cong)
    moreover have "length (filter (below (Some c)) (filter (below cur) (messages d)))
          < length (filter (below cur) (messages d))"
      using m b1 b2 by (intro length_filter_less [of ?m]) auto
    ultimately show ?thesis by simp
  qed
  then show "((d, caller, threadId, limit, Some c), (d, caller, threadId, limit, cur))
       \<in> measure (\<lambda>(d, caller, threadId, limit, cur). length (filter (below cur) (messages d)))"
    by simp
qed

declare paginate.simps [simp del]

section \<open>A small database\<close>

text \<open>
  Three of the seed users; thread 10 between alice and bobby, with four messages of which
  the third is deleted and the first two share a timestamp; charlie is in no thread.
\<close>

definition mk_user :: "uuid \<Rightarrow> string \<Rightarrow> string \<Rightarrow> user" where
  "mk_user i c n =
     \<lparr>users_id = i, users_clerkUserId = c, users_username = n, users_primaryEmail = None,
      users_firstName = None, users_lastName = None, users_createdAt = 0,
      users_updatedAt = 0\<rparr>"

definition mk_message :: "uuid \<Rightarrow> uuid \<Rightarrow> uuid \<Rightarrow> string \<Rightarrow> timestamp \<Rightarrow> bool \<Rightarrow> message" where
  "mk_message i t s c at del =
     \<lparr>messages_id = i, messages_threadId = t, messages_senderId = s, messages_content = c,
      messages_createdAt = at, messages_updatedAt = at, messages_editedAt = None,
      messages_isDeleted = del\<rparr>"

definition demo_db :: db where
  "demo_db =
     \<lparr>users = [mk_user 1 ''user_a'' ''alice'', mk_user 2 ''user_b'' ''bobby'',
               mk_user 3 ''user_c'' ''charlie''],
      threads = [\<lparr>threads_id = 10, threads_name = None, threads_createdAt = 900,
                  threads_updatedAt = 900, threads_lastMessageAt = 1002\<rparr>],
      threadParticipants =
        [\<lparr>threadParticipants_threadId = 10, threadParticipants_userId = 1,
          threadParticipants_joinedAt = 900\<rparr>,
         \<lparr>threadParticipants_threadId = 10, threadParticipants_userId = 2,
          threadParticipants_joinedAt = 900\<rparr>],
      messages = [mk_message 100 10 1 ''hi'' 1000 False,
                  mk_message 101 10 2 ''yo'' 1000 False,
                  mk_message 102 10 1 ''typo'' 1001 True,
                  mk_message 103 10 2 ''bye'' 1002 False]\<rparr>"

text \<open>
  The same users and thread with five messages, timestamps in microseconds: bobby's
  messages 200 and 201 were stored a quarter of a millisecond apart.
\<close>

definition skew_db :: db where
  "skew_db =
     demo_db\<lparr>messages := [mk_message 100 10 1 ''hi'' 1000 False,
                          mk_message 101 10 2 ''yo'' 1000 False,
                          mk_message 103 10 2 ''bye'' 3000 False,
                          mk_message 200 10 2 ''one'' 5250 False,
                          mk_message 201 10 2 ''two'' 5500 False]\<rparr>"

text \<open>Client-side messages and events for the reconciliation examples.\<close>

definition mk_Message :: "string \<Rightarrow> string \<Rightarrow> string \<Rightarrow> Message" where
  "mk_Message i c s =
     \<lparr>Message_id = i, Message_content = c, Message_createdAt = ''2025-01-01T00:00:00.000Z'',
      Message_updatedAt = ''2025-01-01T00:00:00.000Z'', Message_editedAt = None,
      Message_isDeleted = None,
      Message_sender = \<lparr>sender_id = s, sender_username = ''alice''\<rparr>\<rparr>"

definition mk_MessageEvent :: "string \<Rightarrow> string \<Rightarrow> string \<Rightarrow> MessageEvent" where
  "mk_MessageEvent i c s =
     \<lparr>MessageEvent_id = i, MessageEvent_content = c,
      MessageEvent_createdAt = ''2025-01-01T00:00:00.000Z'',
      MessageEvent_updatedAt = ''2025-01-01T00:00:00.000Z'', MessageEvent_threadId = ''t10'',
      MessageEvent_sender = \<lparr>sender_id = s, sender_username = ''alice''\<rparr>\<rparr>"





section \<open>Auxiliary facts about the guards\<close>

lemma thread_rows_Nil: "thread_rows d t = [] \<longleftrightarrow> \<not> thread_exists d t"
  by (auto simp: thread_rows_def thread_exists_def filter_empty_conv)

lemma participation_Nil: "participation d t u = [] \<longleftrightarrow> \<not> is_participant d t u"
  by (auto simp: participation_def is_participant_def filter_empty_conv)

lemma db_ok_demo: "db_ok demo_db"
  by (simp add: db_ok_def demo_db_def mk_user_def mk_message_def)

lemma no_thread_no_participant:
  "db_ok d \<Longrightarrow> \<not> thread_exists d t \<Longrightarrow> \<not> is_participant d t u"
  by (auto simp: db_ok_def thread_exists_def is_participant_def list_all_iff)

lemma take1_filter_distinct:
  "distinct (map k xs) \<Longrightarrow> x \<in> set xs \<Longrightarrow> take 1 (filter (\<lambda>m. k m = k x) xs) = [x]"
  by (induction xs) (auto simp: filter_empty_conv image_iff)

lemma take1_filter_map_upd:
  "take 1 (filter (\<lambda>m. k m = i) (map (\<lambda>m. if k m = i then g m else m) xs)) =
   map g (take 1 (filter (\<lambda>m. k m = i) xs))"
  if "\<And>m. k (g m) = k m"
  using that by (induction xs) auto

section \<open>Soft delete\<close>

text \<open>
  C7. The sender deletes an existing, not yet deleted message twice. The first call
  succeeds and sets \<open>isDeleted\<close> and \<open>updatedAt\<close> on the row; the second call fails with
  BAD_REQUEST and leaves the database as the first call left it; after either call every
  row of the table has the content it had before.
\<close>

theorem delete_twice:
  assumes "db_ok d" and "m0 \<in> set (messages d)"
    and "messages_senderId m0 = caller" and "\<not> messages_isDeleted m0"
  shows "\<exists>d1. messages_delete d caller (messages_id m0) t1 = (Inr Success, d1) \<and>
           take 1 (filter (\<lambda>m. messages_id m = messages_id m0) (messages d1)) =
             [m0\<lparr>messages_isDeleted := True, messages_updatedAt := t1\<rparr>] \<and>
           messages_delete d1 caller (messages_id m0) t2 = (Inl BAD_REQUEST, d1) \<and>
           map messages_content (messages d1) = map messages_content (messages d) \<and>
           map messages_id (messages d1) = map messages_id (messages d)"
proof -
  let ?upd = "\<lambda>m. m\<lparr>messages_isDeleted := True, messages_updatedAt := t1\<rparr>"
  let ?d1 = "d\<lparr>messages := map (\<lambda>m. if messages_id m = messages_id m0 then ?upd m else m)
                                  (messages d)\<rparr>"
  have "distinct (map messages_id (messages d))"
    using assms(1) by (simp add: db_ok_def)
  then have row0: "take 1 (filter (\<lambda>m. messages_id m = messages_id m0) (messages d)) = [m0]"
    using assms(2) by (rule take1_filter_distinct)
  have first: "messages_delete d caller (messages_id m0) t1 = (Inr Success, ?d1)"
    using row0 assms(3,4) by (simp add: messages_delete_def del: One_nat_def)
  have row: "take 1 (filter (\<lambda>m. messages_id m = messages_id m0) (messages ?d1)) = [?upd m0]"
    using row0 take1_filter_map_upd [of messages_id ?upd "messages_id m0" "messages d"]
    by simp
  have second: "messages_delete ?d1 caller (messages_id m0) t2 = (Inl BAD_REQUEST, ?d1)"
    unfolding messages_delete_def using row assms(3) by simp
  have content: "map messages_content (messages ?d1) = map messages_content (messages d)"
    by (simp add: comp_def if_distrib cong: if_cong)
  have ids: "map messages_id (messages ?d1) = map messages_id (messages d)"
    by (simp add: comp_def if_distrib cong: if_cong)
  show ?thesis using first row second content ids by blast
qed

theorem delete_twice_witness:
  "db_ok demo_db \<and> mk_message 100 10 1 ''hi'' 1000 False \<in> set (messages demo_db) \<and>
   (\<exists>d1. messages_delete demo_db 1 100 2000 = (Inr Success, d1) \<and>
      take 1 (filter (\<lambda>m. messages_id m = 100) (messages d1)) =
        [mk_message 100 10 1 ''hi'' 1000 False
           \<lparr>messages_isDeleted := True, messages_updatedAt := 2000\<rparr>] \<and>
      messages_delete d1 1 100 3000 = (Inl BAD_REQUEST, d1) \<and>
      map messages_content (messages d1) = [''hi'', ''yo'', ''typo'', ''bye''] \<and>
      map messages_id (messages d1) = map messages_id (messages demo_db))"
proof -
  have m: "mk_message 100 10 1 ''hi'' 1000 False \<in> set (messages demo_db)"
    by (simp add: demo_db_def)
  have s: "messages_senderId (mk_message 100 10 1 ''hi'' 1000 False) = 1"
    and n: "\<not> messages_isDeleted (mk_message 100 10 1 ''hi'' 1000 False)"
    and i: "messages_id (mk_message 100 10 1 ''hi'' 1000 False) = 100"
    by (simp_all add: mk_message_def)
  have c: "map messages_content (messages demo_db) = [''hi'', ''yo'', ''typo'', ''bye'']"
    by (simp add: demo_db_def mk_message_def)
  have ex: "\<exists>d1. messages_delete demo_db 1 100 2000 = (Inr Success, d1) \<and>
      take 1 (filter (\<lambda>m. messages_id m = 100) (messages d1)) =
        [mk_message 100 10 1 ''hi'' 1000 False
           \<lparr>messages_isDeleted := True, messages_updatedAt := 2000\<rparr>] \<and>
      messages_delete d1 1 100 3000 = (Inl BAD_REQUEST, d1) \<and>
      map messages_content (messages d1) = [''hi'', ''yo'', ''typo'', ''bye''] \<and>
      map messages_id (messages d1) = map messages_id (messages demo_db)"
    using delete_twice [OF db_ok_demo m s n, of 2000 3000] unfolding i c .
  show ?thesis
    by (intro conjI db_ok_demo m ex)
qed

section \<open>Authorization\<close>

text \<open>
  C4. On an existing thread, a caller without a participant row receives FORBIDDEN from
  \<open>list\<close>, \<open>send\<close> and \<open>getLatest\<close>, and \<open>send\<close> writes nothing. On an existing,
  not deleted message, a caller other than its sender receives FORBIDDEN from \<open>edit\<close>
  and \<open>delete\<close>, whether or not the caller takes part in the thread, and the database is
  the one before the call.
\<close>

theorem forbidden_without_membership_or_ownership:
  assumes "db_ok d"
  shows "(thread_exists d threadId \<longrightarrow> \<not> is_participant d threadId caller \<longrightarrow>
            messages_list d caller threadId limit cur = Inl FORBIDDEN \<and>
            messages_send d caller threadId content newId t_insert t_last = (Inl FORBIDDEN, d) \<and>
            messages_getLatest d caller threadId n = Inl FORBIDDEN) \<and>
         (m \<in> set (messages d) \<longrightarrow> \<not> messages_isDeleted m \<longrightarrow>
          messages_senderId m \<noteq> caller \<longrightarrow>
            messages_edit d caller (messages_id m) content t_edited t_updated =
              (Inl FORBIDDEN, d) \<and>
            messages_delete d caller (messages_id m) now = (Inl FORBIDDEN, d))"
proof -
  have pk: "distinct (map messages_id (messages d))"
    using assms by (simp add: db_ok_def)
  have row: "take 1 (filter (\<lambda>x. messages_id x = messages_id m) (messages d)) = [m]"
    if "m \<in> set (messages d)"
    using take1_filter_distinct [OF pk that] .
  show ?thesis
    by (simp add: messages_list_def messages_send_def messages_getLatest_def
        messages_edit_def messages_delete_def thread_rows_Nil participation_Nil row
        del: One_nat_def)
qed

theorem forbidden_without_membership_or_ownership_witness:
  "db_ok demo_db \<and> thread_exists demo_db 10 \<and> \<not> is_participant demo_db 10 3 \<and>
   mk_message 100 10 1 ''hi'' 1000 False \<in> set (messages demo_db) \<and>
   messages_list demo_db 3 10 50 None = Inl FORBIDDEN \<and>
   messages_send demo_db 3 10 ''hello'' 104 2000 2001 = (Inl FORBIDDEN, demo_db) \<and>
   messages_getLatest demo_db 3 10 1 = Inl FORBIDDEN \<and>
   messages_edit demo_db 3 100 ''hello'' 2000 2001 = (Inl FORBIDDEN, demo_db) \<and>
   messages_delete demo_db 3 100 2000 = (Inl FORBIDDEN, demo_db)"
proof -
  have t: "thread_exists demo_db 10" and p: "\<not> is_participant demo_db 10 3"
    by (simp_all add: thread_exists_def is_participant_def demo_db_def)
  have m: "mk_message 100 10 1 ''hi'' 1000 False \<in> set (messages demo_db)"
    by (simp add: demo_db_def)
  have f: "\<not> messages_isDeleted (mk_message 100 10 1 ''hi'' 1000 False)"
    "messages_senderId (mk_message 100 10 1 ''hi'' 1000 False) \<noteq> 3"
    "messages_id (mk_message 100 10 1 ''hi'' 1000 False) = 100"
    by (simp_all add: mk_message_def)
  show ?thesis
    using forbidden_without_membership_or_ownership [OF db_ok_demo, of 10 3 50 None
        "''hello''" 104 2000 2001 1 "mk_message 100 10 1 ''hi'' 1000 False" 2000 2001 2000]
      db_ok_demo t p m f
    by simp
qed

text \<open>
  The same holds for a participant who is not the sender: bobby takes part in thread 10
  and may neither edit nor delete alice's message.
\<close>

lemma participant_cannot_touch_anothers_message:
  "is_participant demo_db 10 2 \<and>
   messages_edit demo_db 2 100 ''hello'' 2000 2001 = (Inl FORBIDDEN, demo_db) \<and>
   messages_delete demo_db 2 100 2000 = (Inl FORBIDDEN, demo_db)"
  by (simp add: is_participant_def messages_edit_def messages_delete_def demo_db_def
      mk_message_def)

section \<open>Order of the existence and participation checks\<close>

lemma getById_never_not_found:
  assumes "db_ok d"
  shows "threads_getById d caller threadId \<noteq> Inl NOT_FOUND"
proof (cases "is_participant d threadId caller")
  case True
  then have "thread_exists d threadId"
    using no_thread_no_participant [OF assms] by blast
  then have "thread_rows d threadId \<noteq> []"
    by (simp add: thread_rows_Nil)
  then show ?thesis
    using True by (auto simp: threads_getById_def participation_Nil split: list.splits)
next
  case False
  then show ?thesis
    by (simp add: threads_getById_def participation_Nil)
qed

text \<open>
  C2 on a thread identifier that references no thread. The three resolvers of the
  messages router look the thread up first and answer NOT_FOUND, whoever calls, as the
  claim says. \<open>threads.getById\<close> and \<open>threads.addParticipant\<close> answer FORBIDDEN there,
  where the claim says NotFound: both look for the caller's participant row first, and a
  thread that does not exist has none. The "Thread not found" throw of \<open>getById\<close>
  stands after that test and is reached for no caller and no thread; \<open>addParticipant\<close>
  never looks the thread up. Nothing is written in any of the five.
\<close>

theorem missing_thread_outcomes:
  assumes "db_ok d" and "\<not> thread_exists d threadId"
  shows "messages_list d caller threadId limit cur = Inl NOT_FOUND \<and>
         messages_send d caller threadId content newId t_insert t_last = (Inl NOT_FOUND, d) \<and>
         messages_getLatest d caller threadId n = Inl NOT_FOUND \<and>
         threads_getById d caller threadId = Inl FORBIDDEN \<and>
         threads_addParticipant d caller threadId userId now = (Inl FORBIDDEN, d) \<and>
         threads_getById d caller' threadId' \<noteq> Inl NOT_FOUND"
  using assms no_thread_no_participant [OF assms, of caller]
    getById_never_not_found [OF assms(1), of caller' threadId']
  by (simp add: messages_list_def messages_send_def messages_getLatest_def
      threads_getById_def threads_addParticipant_def thread_rows_Nil participation_Nil)

theorem missing_thread_outcomes_witness:
  "db_ok demo_db \<and> \<not> thread_exists demo_db 99 \<and>
   messages_list demo_db 3 99 50 None = Inl NOT_FOUND \<and>
   messages_send demo_db 3 99 ''hello'' 104 2000 2001 = (Inl NOT_FOUND, demo_db) \<and>
   messages_getLatest demo_db 3 99 1 = Inl NOT_FOUND \<and>
   threads_getById demo_db 3 99 = Inl FORBIDDEN \<and>
   threads_addParticipant demo_db 3 99 2 2000 = (Inl FORBIDDEN, demo_db) \<and>
   threads_getById demo_db 1 10 \<noteq> Inl NOT_FOUND"
proof -
  have t: "\<not> thread_exists demo_db 99"
    by (simp add: thread_exists_def demo_db_def)
  show ?thesis
    using missing_thread_outcomes [OF db_ok_demo t, of 3 50 None "''hello''" 104 2000 2001
        1 2 2000 1 10] db_ok_demo t
    by simp
qed

text \<open>
  On the small database: charlie, who takes part in nothing, asks for thread 99, which
  does not exist, and receives FORBIDDEN from \<open>addParticipant\<close> and \<open>getById\<close>.
\<close>

theorem missing_thread_not_always_not_found:
  "\<not> thread_exists demo_db 99 \<and> \<not> is_participant demo_db 99 3 \<and>
   fst (threads_addParticipant demo_db 3 99 2 2000) \<noteq> Inl NOT_FOUND \<and>
   threads_addParticipant demo_db 3 99 2 2000 = (Inl FORBIDDEN, demo_db) \<and>
   threads_getById demo_db 3 99 \<noteq> Inl NOT_FOUND \<and>
   threads_getById demo_db 3 99 = Inl FORBIDDEN"
  by (simp add: thread_exists_def is_participant_def threads_addParticipant_def
      threads_getById_def participation_def demo_db_def)

section \<open>What a call of list returns\<close>

lemma join_row:
  "r \<in> set (messages_join_users d) \<Longrightarrow>
   fst r \<in> set (messages d) \<and> snd r \<in> set (users d) \<and>
   messages_senderId (fst r) = users_id (snd r)"
  by (auto simp: messages_join_users_def)

lemma set_query_rows:
  "set (query_rows d t cur) =
   {r \<in> set (messages_join_users d). whereClause t cur (fst r)}"
  by (auto simp: query_rows_def orderBy_desc_def)

lemma trim_take:
  "(if limit < length (map f (take (limit + 1) xs)) then butlast (map f (take (limit + 1) xs))
    else map f (take (limit + 1) xs)) = map f (take limit xs)"
proof (cases "limit < length xs")
  case True
  then have "butlast (take (limit + 1) xs) = take limit xs"
    by (simp add: butlast_take)
  then show ?thesis using True by (simp add: map_butlast [symmetric])
next
  case False
  then show ?thesis by simp
qed

lemma messages_list_page:
  assumes "thread_exists d t" and "is_participant d t caller"
  shows "messages_list d caller t limit cur =
         Inr (rev (map select_message (take limit (query_rows d t cur))),
              if limit < length (query_rows d t cur) \<and> 0 < limit
              then Some (cursor_of (select_message (query_rows d t cur ! (limit - 1))))
              else None)"
proof -
  let ?Q = "query_rows d t cur"
  have lst: "last (map select_message (take limit ?Q)) = select_message (?Q ! (limit - 1))"
    if "limit < length ?Q" "0 < limit"
  proof -
    have ne: "take limit ?Q \<noteq> []" using that by auto
    have len: "length (take limit ?Q) = limit" using that by simp
    have "last (take limit ?Q) = take limit ?Q ! (limit - 1)"
      using last_conv_nth [OF ne] unfolding len .
    also have "\<dots> = ?Q ! (limit - 1)" using that by simp
    finally show ?thesis using ne by (simp add: last_map)
  qed
  show ?thesis
  proof (cases "limit < length ?Q")
    case True
    have bl: "butlast (map select_message (take (Suc limit) ?Q)) =
              map select_message (take limit ?Q)"
      using True by (simp add: map_butlast [symmetric] butlast_take)
    show ?thesis
      using assms True lst
      unfolding messages_list_def Let_def query_rows_def [symmetric]
      by (simp add: thread_rows_Nil participation_Nil bl cursor_of_def)
  next
    case False
    then show ?thesis
      using assms
      unfolding messages_list_def Let_def query_rows_def [symmetric]
      by (simp add: thread_rows_Nil participation_Nil)
  qed
qed

lemma messages_list_Inr:
  "messages_list d caller t limit cur = Inr (page, nc) \<Longrightarrow>
   thread_exists d t \<and> is_participant d t caller"
  by (auto simp: messages_list_def thread_rows_Nil participation_Nil split: if_splits)

lemma js_Date_le: "js_Date t \<le> t"
  by (simp add: js_Date_def)

lemma js_Date_idem: "js_Date (js_Date t) = js_Date t"
  by (simp add: js_Date_def)

lemma insort_key_map:
  "insort_key f (g x) (map g xs) = map g (insort_key (\<lambda>y. f (g y)) x xs)"
  by (induction xs) auto

lemma sort_key_map: "sort_key f (map g xs) = map g (sort_key (\<lambda>y. f (g y)) xs)"
  by (induction xs) (auto simp: insort_key_map)

lemma filter_unique:
  "distinct (map k xs) \<Longrightarrow> x \<in> set xs \<Longrightarrow>
   filter (\<lambda>u. i = k u) xs = (if i = k x then [x] else filter (\<lambda>u. i = k u) xs)"
  by (induction xs) (auto simp: filter_empty_conv image_iff)

lemma join_users_eq:
  assumes "db_ok d"
  shows "\<exists>U. messages_join_users d = map (\<lambda>m. (m, U m)) (messages d) \<and>
             (\<forall>m \<in> set (messages d). U m \<in> set (users d) \<and> users_id (U m) = messages_senderId m)"
proof -
  define U :: "message \<Rightarrow> user" where
    "U m = hd (filter (\<lambda>u. messages_senderId m = users_id u) (users d))" for m
  have pk: "distinct (map users_id (users d))"
    and fk: "\<forall>m \<in> set (messages d). messages_senderId m \<in> set (map users_id (users d))"
    using assms by (simp_all add: db_ok_def list_all_iff)
  have one: "filter (\<lambda>u. messages_senderId m = users_id u) (users d) = [U m] \<and>
             U m \<in> set (users d) \<and> users_id (U m) = messages_senderId m"
    if "m \<in> set (messages d)" for m
  proof -
    from fk that obtain u where u: "u \<in> set (users d)" "users_id u = messages_senderId m"
      by auto
    have "filter (\<lambda>u. messages_senderId m = users_id u) (users d) = [u]"
      using filter_unique [OF pk u(1), of "messages_senderId m"] u(2) by simp
    then show ?thesis using u by (simp add: U_def)
  qed
  have "messages_join_users d = map (\<lambda>m. (m, U m)) (messages d)"
  proof -
    have "concat (map (\<lambda>m. map (Pair m) (filter (\<lambda>u. messages_senderId m = users_id u) (users d))) ms)
          = map (\<lambda>m. (m, U m)) ms" if "set ms \<subseteq> set (messages d)" for ms
      using that by (induction ms) (auto simp: one)
    then show ?thesis by (simp add: messages_join_users_def)
  qed
  then show ?thesis using one by blast
qed

lemma query_rows_filter:
  "query_rows d t cur = filter (\<lambda>r. below cur (fst r)) (query_rows d t None)"
proof -
  let ?J = "messages_join_users d"
  have "filter (\<lambda>r. whereClause t cur (fst r)) ?J =
        filter (\<lambda>r. below cur (fst r)) (filter (\<lambda>r. whereClause t None (fst r)) ?J)"
    unfolding filter_filter
    by (rule filter_cong) (auto simp: whereClause_def below_def split: option.splits)
  then show ?thesis
    by (simp only: query_rows_def orderBy_desc_def filter_sort [symmetric] rev_filter)
qed

lemma query_rows_thread_messages:
  assumes "db_ok d"
  shows "\<exists>U. (\<forall>cur. rev (query_rows d t cur) =
                    map (\<lambda>m. (m, U m)) (filter (below cur) (thread_messages d t))) \<and>
             (\<forall>m \<in> set (messages d). U m \<in> set (users d) \<and> users_id (U m) = messages_senderId m)"
proof -
  from join_users_eq [OF assms] obtain U where
    U: "messages_join_users d = map (\<lambda>m. (m, U m)) (messages d)"
    "\<forall>m \<in> set (messages d). U m \<in> set (users d) \<and> users_id (U m) = messages_senderId m"
    by blast
  have k: "(\<lambda>m. order_key (m, U m)) = message_key"
    by (auto simp: order_key_def message_key_def)
  have bc: "baseCondition t = (\<lambda>x. messages_threadId x = t \<and> \<not> messages_isDeleted x)"
    by (auto simp: baseCondition_def)
  have none: "rev (query_rows d t None) = map (\<lambda>m. (m, U m)) (thread_messages d t)"
    by (simp add: query_rows_def orderBy_desc_def U(1) whereClause_def filter_map comp_def
        sort_key_map thread_messages_def k bc)
  have "rev (query_rows d t cur) =
        map (\<lambda>m. (m, U m)) (filter (below cur) (thread_messages d t))" for cur
    by (subst query_rows_filter) (simp only: rev_filter none filter_map comp_def fst_conv)
  then show ?thesis using U(2) by blast
qed

lemma thread_messages_strict:
  assumes "db_ok d"
  shows "sorted_wrt (\<lambda>a b. message_key a < message_key b) (thread_messages d t)"
proof -
  have pk: "distinct (map messages_id (messages d))"
    using assms by (simp add: db_ok_def)
  have inj: "inj_on message_key (set (messages d))"
    using pk by (auto simp: inj_on_def message_key_def distinct_map)
  have "distinct (messages d)"
    using pk by (simp add: distinct_map)
  then have "distinct (thread_messages d t)"
    by (simp add: thread_messages_def)
  moreover have "inj_on message_key (set (thread_messages d t))"
    using inj by (auto simp: thread_messages_def inj_on_def)
  ultimately have "distinct (map message_key (thread_messages d t))"
    by (simp add: distinct_map)
  moreover have "sorted (map message_key (thread_messages d t))"
    by (simp add: thread_messages_def)
  ultimately have "sorted_wrt (<) (map message_key (thread_messages d t))"
    by (simp add: strict_sorted_iff)
  then show ?thesis by (simp add: sorted_wrt_map)
qed

lemma messages_list_newest:
  assumes "db_ok d" and "messages_list d caller t limit cur = Inr (page, nc)"
  shows "list_all2 (presents d) page (newest limit (filter (below cur) (thread_messages d t)))"
proof -
  let ?W = "filter (below cur) (thread_messages d t)"
  let ?Q = "query_rows d t cur"
  from query_rows_thread_messages [OF assms(1), of t] obtain U where
    U: "rev ?Q = map (\<lambda>m. (m, U m)) ?W"
    "\<forall>m \<in> set (messages d). U m \<in> set (users d) \<and> users_id (U m) = messages_senderId m"
    by blast
  from messages_list_Inr [OF assms(2)] messages_list_page [of d t caller limit cur] assms(2)
  have "page = rev (map select_message (take limit ?Q))" by simp
  also have "\<dots> = map select_message (drop (length ?Q - limit) (rev ?Q))"
    by (simp add: rev_map rev_take)
  also have "length ?Q = length ?W"
    using U(1) by (metis length_map length_rev)
  finally have page: "page = map (\<lambda>m. select_message (m, U m)) (newest limit ?W)"
    unfolding U(1) by (simp add: newest_def drop_map comp_def)
  have "set (newest limit ?W) \<subseteq> set (messages d)"
    by (auto simp: newest_def thread_messages_def dest!: in_set_dropD)
  then show ?thesis
    unfolding page using U(2)
    by (auto simp: list_all2_map1 list_all2_same presents_def list_ex_iff)
qed

lemma set_thread_messages:
  "set (thread_messages d t) =
   {m \<in> set (messages d). messages_threadId m = t \<and> \<not> messages_isDeleted m}"
  by (auto simp: thread_messages_def baseCondition_def)

lemma message_key_less:
  "message_key a < message_key b \<longleftrightarrow>
   messages_createdAt a < messages_createdAt b \<or>
   (messages_createdAt a = messages_createdAt b \<and> messages_id a < messages_id b)"
  by (auto simp: message_key_def less_prod_def)

text \<open>
  C8. \<open>list\<close> never returns a message whose \<open>isDeleted\<close> is true: no identifier of a
  deleted message of the table occurs on a page, and no returned row carries the flag.
  A page presents, row by row, the last \<open>limit\<close> of the thread's non-deleted messages
  below the cursor, taken in increasing order of the stored (createdAt, id): the newest
  \<open>limit\<close> rows of the descending order, reversed. \<open>getLatest\<close> has the same guard,
  filter and order: for every limit it returns what \<open>list\<close> returns as its first page
  for that limit, errors included, that is the newest \<open>n\<close> non-deleted messages of the
  thread in increasing order of (createdAt, id).
\<close>

theorem list_hides_deleted_and_getLatest_agrees:
  assumes "db_ok d"
  shows "(messages_list d caller t limit cur = Inr (page, nc) \<longrightarrow>
            (\<forall>m \<in> set (messages d). messages_isDeleted m \<longrightarrow>
               messages_id m \<notin> set (map out_id page)) \<and>
            (\<forall>r \<in> set page. \<not> out_isDeleted r) \<and>
            list_all2 (presents d) page
              (newest limit (filter (below cur) (thread_messages d t)))) \<and>
         messages_getLatest d caller t n = map_sum id fst (messages_list d caller t n None) \<and>
         (messages_getLatest d caller t n = Inr rows \<longrightarrow>
            list_all2 (presents d) rows (newest n (thread_messages d t))) \<and>
         set (thread_messages d t) =
           {m \<in> set (messages d). messages_threadId m = t \<and> \<not> messages_isDeleted m} \<and>
         sorted_wrt (\<lambda>a b. messages_createdAt a < messages_createdAt b \<or>
                           (messages_createdAt a = messages_createdAt b \<and>
                            messages_id a < messages_id b))
                    (thread_messages d t)"
proof -
  have pk: "distinct (map messages_id (messages d))"
    using assms by (simp add: db_ok_def)
  have latest: "messages_getLatest d caller t n = map_sum id fst (messages_list d caller t n None)"
  proof (cases "thread_exists d t \<and> is_participant d t caller")
    case True
    then show ?thesis
      using messages_list_page [of d t caller n None]
      by (simp add: messages_getLatest_def thread_rows_Nil participation_Nil query_rows_def
          whereClause_def baseCondition_def rev_map)
  next
    case False
    then show ?thesis
      by (auto simp: messages_getLatest_def messages_list_def thread_rows_Nil participation_Nil)
  qed
  have del: "(\<forall>m \<in> set (messages d). messages_isDeleted m \<longrightarrow> messages_id m \<notin> set (map out_id page)) \<and>
            (\<forall>r \<in> set page. \<not> out_isDeleted r)"
    if L: "messages_list d caller t limit cur = Inr (page, nc)"
  proof -
    from messages_list_Inr [OF L] messages_list_page [of d t caller limit cur] L
    have page: "page = rev (map select_message (take limit (query_rows d t cur)))"
      by simp
    have sub: "\<exists>q \<in> set (messages_join_users d). whereClause t cur (fst q) \<and> r = select_message q"
      if "r \<in> set page" for r
    proof -
      from that obtain q where "q \<in> set (take limit (query_rows d t cur))" "r = select_message q"
        unfolding page by auto
      moreover from this have "q \<in> set (query_rows d t cur)" by (meson in_set_takeD)
      ultimately show ?thesis by (auto simp: set_query_rows)
    qed
    have nd: "\<not> messages_isDeleted (fst q)" if "whereClause t cur (fst q)" for q
      using that by (auto simp: whereClause_def baseCondition_def split: option.splits)
    have a: "\<not> out_isDeleted r" if "r \<in> set page" for r
      using sub [OF that] nd by (auto simp: select_message_def)
    have b: "messages_id m \<notin> set (map out_id page)"
      if "m \<in> set (messages d)" "messages_isDeleted m" for m
    proof
      assume "messages_id m \<in> set (map out_id page)"
      then obtain r where r: "r \<in> set page" "out_id r = messages_id m" by auto
      from sub [OF r(1)] obtain q where q: "q \<in> set (messages_join_users d)"
        "whereClause t cur (fst q)" "r = select_message q" by blast
      have "fst q \<in> set (messages d)" using join_row [OF q(1)] by simp
      moreover have "messages_id (fst q) = messages_id m"
        using r(2) q(3) by (simp add: select_message_def)
      ultimately have "fst q = m"
        using pk that(1) by (meson distinct_map inj_onD)
      then show False using nd [OF q(2)] that(2) by simp
    qed
    show ?thesis using a b by blast
  qed
  have ord: "list_all2 (presents d) page
              (newest limit (filter (below cur) (thread_messages d t)))"
    if "messages_list d caller t limit cur = Inr (page, nc)"
    by (rule messages_list_newest [OF assms that])
  have lat: "list_all2 (presents d) rows (newest n (thread_messages d t))"
    if G: "messages_getLatest d caller t n = Inr rows"
  proof -
    from G latest obtain nc' where "messages_list d caller t n None = Inr (rows, nc')"
      by (cases "messages_list d caller t n None") auto
    from messages_list_newest [OF assms this] show ?thesis
      by (simp add: below_def)
  qed
  have srt: "sorted_wrt (\<lambda>a b. messages_createdAt a < messages_createdAt b \<or>
                           (messages_createdAt a = messages_createdAt b \<and>
                            messages_id a < messages_id b))
                    (thread_messages d t)"
    using thread_messages_strict [OF assms, of t] by (simp add: message_key_less)
  show ?thesis
    using latest del ord lat srt set_thread_messages [of d t] by blast
qed

theorem list_hides_deleted_and_getLatest_agrees_witness:
  "db_ok demo_db \<and>
   messages_list demo_db 1 10 2 None =
     Inr ([select_message (mk_message 101 10 2 ''yo'' 1000 False, mk_user 2 ''user_b'' ''bobby''),
           select_message (mk_message 103 10 2 ''bye'' 1002 False, mk_user 2 ''user_b'' ''bobby'')],
          Some \<lparr>cursor_id = 101, cursor_createdAt = 1000\<rparr>) \<and>
   mk_message 102 10 1 ''typo'' 1001 True \<in> set (messages demo_db) \<and>
   messages_isDeleted (mk_message 102 10 1 ''typo'' 1001 True) \<and>
   messages_id (mk_message 102 10 1 ''typo'' 1001 True) \<notin>
     set (map out_id
       [select_message (mk_message 101 10 2 ''yo'' 1000 False, mk_user 2 ''user_b'' ''bobby''),
        select_message (mk_message 103 10 2 ''bye'' 1002 False, mk_user 2 ''user_b'' ''bobby'')]) \<and>
   messages_getLatest demo_db 1 10 2 = map_sum id fst (messages_list demo_db 1 10 2 None) \<and>
   messages_getLatest demo_db 1 10 2 =
     Inr [select_message (mk_message 101 10 2 ''yo'' 1000 False, mk_user 2 ''user_b'' ''bobby''),
          select_message (mk_message 103 10 2 ''bye'' 1002 False, mk_user 2 ''user_b'' ''bobby'')] \<and>
   list_all2 (presents demo_db)
     [select_message (mk_message 101 10 2 ''yo'' 1000 False, mk_user 2 ''user_b'' ''bobby''),
      select_message (mk_message 103 10 2 ''bye'' 1002 False, mk_user 2 ''user_b'' ''bobby'')]
     [mk_message 101 10 2 ''yo'' 1000 False, mk_message 103 10 2 ''bye'' 1002 False]"
proof -
  let ?page = "[select_message (mk_message 101 10 2 ''yo'' 1000 False, mk_user 2 ''user_b'' ''bobby''),
           select_message (mk_message 103 10 2 ''bye'' 1002 False, mk_user 2 ''user_b'' ''bobby'')]"
  let ?c = "\<lparr>cursor_id = 101, cursor_createdAt = 1000\<rparr>"
  let ?m = "mk_message 102 10 1 ''typo'' 1001 True"
  have L: "messages_list demo_db 1 10 2 None = Inr (?page, Some ?c)"
    by code_simp
  have G: "messages_getLatest demo_db 1 10 2 = Inr ?page"
    by code_simp
  have N: "newest 2 (thread_messages demo_db 10) =
           [mk_message 101 10 2 ''yo'' 1000 False, mk_message 103 10 2 ''bye'' 1002 False]"
    by code_simp
  have m: "?m \<in> set (messages demo_db)"
    by (simp add: demo_db_def)
  have del: "messages_isDeleted ?m"
    by (simp add: mk_message_def)
  note main = list_hides_deleted_and_getLatest_agrees [OF db_ok_demo, of 1 10 2 None ?page
      "Some ?c" 2 ?page]
  have hidden: "messages_id ?m \<notin> set (map out_id ?page)"
    using main [THEN conjunct1, THEN mp, OF L, THEN conjunct1, THEN bspec, OF m] del
    by (elim impE) assumption
  have same: "messages_getLatest demo_db 1 10 2 =
              map_sum id fst (messages_list demo_db 1 10 2 None)"
    by (rule main [THEN conjunct2, THEN conjunct1])
  have pres: "list_all2 (presents demo_db) ?page
     [mk_message 101 10 2 ''yo'' 1000 False, mk_message 103 10 2 ''bye'' 1002 False]"
    using main [THEN conjunct2, THEN conjunct2, THEN conjunct1, THEN mp, OF G]
    unfolding N .
  show ?thesis
    by (intro conjI db_ok_demo L m del hidden same G pres)
qed

section \<open>Pagination\<close>

lemma page_row_source:
  assumes "messages_list d caller t limit cur = Inr (page, nc)" and "r \<in> set page"
  shows "\<exists>q \<in> set (messages_join_users d). whereClause t cur (fst q) \<and> r = select_message q"
proof -
  from messages_list_Inr [OF assms(1)] messages_list_page [of d t caller limit cur] assms(1)
  have page: "page = rev (map select_message (take limit (query_rows d t cur)))"
    by simp
  from assms(2) obtain q where "q \<in> set (take limit (query_rows d t cur))" "r = select_message q"
    unfolding page by auto
  moreover from this have "q \<in> set (query_rows d t cur)" by (meson in_set_takeD)
  ultimately show ?thesis by (auto simp: set_query_rows)
qed

lemma next_cursor_source:
  assumes "messages_list d caller t limit cur = Inr (page, Some c)"
  shows "\<exists>q \<in> set (messages_join_users d). whereClause t cur (fst q) \<and>
           c = cursor_of (select_message q)"
proof -
  let ?Q = "query_rows d t cur"
  from messages_list_Inr [OF assms] messages_list_page [of d t caller limit cur] assms
  have more: "limit < length ?Q" "0 < limit"
    and c: "c = cursor_of (select_message (?Q ! (limit - 1)))"
    by (auto split: if_splits)
  have "?Q ! (limit - 1) \<in> set ?Q" using more by simp
  then show ?thesis using c by (auto simp: set_query_rows)
qed

lemma excluded_stays_excluded:
  assumes "whereClause t cur (fst q)" and "\<not> below cur m"
  shows "\<not> below (Some (cursor_of (select_message q))) m"
proof (cases cur)
  case None
  then show ?thesis using assms(2) by (simp add: below_def)
next
  case (Some c0)
  have le: "js_Date (messages_createdAt (fst q)) \<le> messages_createdAt (fst q)"
    by (rule js_Date_le)
  from assms(1) Some have "cursorCondition c0 (fst q)"
    by (simp add: whereClause_def)
  moreover from assms(2) Some have "\<not> cursorCondition c0 m"
    by (simp add: below_def)
  ultimately show ?thesis
    using le
    by (auto simp: below_def cursorCondition_def cursor_of_def select_message_def)
qed

lemma never_returned_later:
  "db_ok d \<Longrightarrow> m \<in> set (messages d) \<Longrightarrow> \<not> below cur m \<Longrightarrow>
   paginate d caller t limit cur = Inr pages \<Longrightarrow>
   messages_id m \<notin> set (map out_id (concat pages))"
proof (induction d caller t limit cur arbitrary: pages rule: paginate.induct)
  case (1 d caller t limit cur)
  note ok = "1.prems"(1) and m = "1.prems"(2) and nb = "1.prems"(3) and run = "1.prems"(4)
  have pk: "distinct (map messages_id (messages d))"
    using ok by (simp add: db_ok_def)
  from run obtain page nc where L: "messages_list d caller t limit cur = Inr (page, nc)"
    by (subst (asm) paginate.simps) (auto split: sum.splits)
  have here: "messages_id m \<notin> set (map out_id page)"
  proof
    assume "messages_id m \<in> set (map out_id page)"
    then obtain r where r: "r \<in> set page" "out_id r = messages_id m" by auto
    from page_row_source [OF L r(1)] obtain q where q: "q \<in> set (messages_join_users d)"
      "whereClause t cur (fst q)" "r = select_message q" by blast
    have "fst q \<in> set (messages d)" using join_row [OF q(1)] by simp
    moreover have "messages_id (fst q) = messages_id m"
      using r(2) q(3) by (simp add: select_message_def)
    ultimately have "fst q = m"
      using pk m by (meson distinct_map inj_onD)
    then have "below cur m"
      using q(2) by (auto simp: whereClause_def below_def split: option.splits)
    then show False using nb by simp
  qed
  show ?case
  proof (cases nc)
    case None
    then have "pages = [page]"
      using run L by (subst (asm) paginate.simps) simp
    then show ?thesis using here by simp
  next
    case (Some c)
    from run L Some obtain rest where
      rest: "paginate d caller t limit (Some c) = Inr rest" "pages = page # rest"
      by (subst (asm) paginate.simps) (auto split: sum.splits)
    from next_cursor_source [OF L [unfolded Some]] obtain q where
      q: "whereClause t cur (fst q)" "c = cursor_of (select_message q)" by blast
    have "\<not> below (Some c) m"
      unfolding q(2) by (rule excluded_stays_excluded [OF q(1) nb])
    from "1.IH" [of "(page, nc)" c, OF _ _ ok m this rest(1)] L Some
    have "messages_id m \<notin> set (map out_id (concat rest))" by simp
    then show ?thesis using here rest(2) by simp
  qed
qed

text \<open>
  C1 where two messages share a millisecond. Let \<open>mr\<close> be the oldest row of a page, so
  that the next cursor is built from it, and let \<open>m\<close> be a non-deleted message of the
  thread that is older than \<open>mr\<close> in the stored order, lies in the same millisecond and
  has microseconds. The cursor carries \<open>mr\<close>'s \<open>createdAt\<close> cut to the millisecond,
  which is below the stored \<open>createdAt\<close> of \<open>m\<close>: the cursor predicate rejects \<open>m\<close>,
  and no page reached by following the cursors from there returns it.
\<close>

theorem pagination_skips_within_millisecond:
  assumes "db_ok d" and "m \<in> set (messages d)" and "baseCondition t m"
    and "messages_createdAt m < messages_createdAt mr \<or>
         (messages_createdAt m = messages_createdAt mr \<and> messages_id m < messages_id mr)"
    and "js_Date (messages_createdAt m) = js_Date (messages_createdAt mr)"
    and "js_Date (messages_createdAt m) \<noteq> messages_createdAt m"
    and "paginate d caller t limit (Some (cursor_of (select_message (mr, u)))) = Inr pages"
  shows "\<not> cursorCondition (cursor_of (select_message (mr, u))) m \<and>
         messages_id m \<notin> set (map out_id (concat pages))"
proof -
  let ?c = "cursor_of (select_message (mr, u))"
  have c: "cursor_createdAt ?c = js_Date (messages_createdAt m)"
    using assms(5) by (simp add: cursor_of_def select_message_def)
  have "js_Date (messages_createdAt m) \<le> messages_createdAt m"
    by (rule js_Date_le)
  then have out: "\<not> cursorCondition ?c m"
    using assms(6) unfolding cursorCondition_def c by auto
  then have "\<not> below (Some ?c) m" by (simp add: below_def)
  from never_returned_later [OF assms(1,2) this assms(7)] out show ?thesis by simp
qed

text \<open>
  On the second small database: the first page ends at message 201, stored at 5500
  microseconds; its cursor carries 5000, and message 200, stored at 5250, is on no page.
\<close>

lemma db_ok_skew: "db_ok skew_db"
  by (simp add: db_ok_def skew_db_def demo_db_def mk_user_def mk_message_def)

lemmas skew_eval = messages_list_def thread_rows_def participation_def messages_join_users_def
  orderBy_desc_def whereClause_def baseCondition_def cursorCondition_def order_key_def
  skew_db_def demo_db_def mk_user_def mk_message_def select_message_def js_Date_def Let_def

lemma skew_page_0: "messages_list skew_db 1 10 1 None =
   Inr ([select_message (mk_message 201 10 2 ''two'' 5500 False, mk_user 2 ''user_b'' ''bobby'')],
        Some \<lparr>cursor_id = 201, cursor_createdAt = 5000\<rparr>)"
  by (simp add: skew_eval)

lemma skew_page_1: "messages_list skew_db 1 10 1 (Some \<lparr>cursor_id = 201, cursor_createdAt = 5000\<rparr>) =
   Inr ([select_message (mk_message 103 10 2 ''bye'' 3000 False, mk_user 2 ''user_b'' ''bobby'')],
        Some \<lparr>cursor_id = 103, cursor_createdAt = 3000\<rparr>)"
  by (simp add: skew_eval)

lemma skew_page_2: "messages_list skew_db 1 10 1 (Some \<lparr>cursor_id = 103, cursor_createdAt = 3000\<rparr>) =
   Inr ([select_message (mk_message 101 10 2 ''yo'' 1000 False, mk_user 2 ''user_b'' ''bobby'')],
        Some \<lparr>cursor_id = 101, cursor_createdAt = 1000\<rparr>)"
  by (simp add: skew_eval)

lemma skew_page_3: "messages_list skew_db 1 10 1 (Some \<lparr>cursor_id = 101, cursor_createdAt = 1000\<rparr>) =
   Inr ([select_message (mk_message 100 10 1 ''hi'' 1000 False, mk_user 1 ''user_a'' ''alice'')],
        None)"
  by (simp add: skew_eval)

lemma skew_run_3: "paginate skew_db 1 10 1 (Some \<lparr>cursor_id = 101, cursor_createdAt = 1000\<rparr>) =
   Inr [[select_message (mk_message 100 10 1 ''hi'' 1000 False, mk_user 1 ''user_a'' ''alice'')]]"
  by (subst paginate.simps) (simp only: skew_page_3 sum.case snd_conv fst_conv option.case)

lemma skew_run_2: "paginate skew_db 1 10 1 (Some \<lparr>cursor_id = 103, cursor_createdAt = 3000\<rparr>) =
   Inr [[select_message (mk_message 101 10 2 ''yo'' 1000 False, mk_user 2 ''user_b'' ''bobby'')],
        [select_message (mk_message 100 10 1 ''hi'' 1000 False, mk_user 1 ''user_a'' ''alice'')]]"
  by (subst paginate.simps) (simp only: skew_page_2 skew_run_3 sum.case snd_conv fst_conv option.case)

lemma skew_run_1: "paginate skew_db 1 10 1 (Some \<lparr>cursor_id = 201, cursor_createdAt = 5000\<rparr>) =
   Inr [[select_message (mk_message 103 10 2 ''bye'' 3000 False, mk_user 2 ''user_b'' ''bobby'')],
        [select_message (mk_message 101 10 2 ''yo'' 1000 False, mk_user 2 ''user_b'' ''bobby'')],
        [select_message (mk_message 100 10 1 ''hi'' 1000 False, mk_user 1 ''user_a'' ''alice'')]]"
  by (subst paginate.simps) (simp only: skew_page_1 skew_run_2 sum.case snd_conv fst_conv option.case)

lemma skew_run_0: "paginate skew_db 1 10 1 None =
   Inr [[select_message (mk_message 201 10 2 ''two'' 5500 False, mk_user 2 ''user_b'' ''bobby'')],
        [select_message (mk_message 103 10 2 ''bye'' 3000 False, mk_user 2 ''user_b'' ''bobby'')],
        [select_message (mk_message 101 10 2 ''yo'' 1000 False, mk_user 2 ''user_b'' ''bobby'')],
        [select_message (mk_message 100 10 1 ''hi'' 1000 False, mk_user 1 ''user_a'' ''alice'')]]"
  by (subst paginate.simps) (simp only: skew_page_0 skew_run_1 sum.case snd_conv fst_conv option.case)

lemma skew_thread_messages: "map messages_id (thread_messages skew_db 10) = [100, 101, 103, 200, 201]"
  by (simp add: thread_messages_def baseCondition_def skew_db_def demo_db_def mk_message_def message_key_def)

theorem pagination_skips_within_millisecond_witness:
  "db_ok skew_db \<and>
   mk_message 200 10 2 ''one'' 5250 False \<in> set (messages skew_db) \<and>
   baseCondition 10 (mk_message 200 10 2 ''one'' 5250 False) \<and>
   js_Date 5250 = js_Date 5500 \<and> js_Date 5250 \<noteq> 5250 \<and>
   messages_list skew_db 1 10 1 None =
     Inr ([select_message (mk_message 201 10 2 ''two'' 5500 False, mk_user 2 ''user_b'' ''bobby'')],
          Some \<lparr>cursor_id = 201, cursor_createdAt = 5000\<rparr>) \<and>
   \<not> cursorCondition \<lparr>cursor_id = 201, cursor_createdAt = 5000\<rparr>
       (mk_message 200 10 2 ''one'' 5250 False) \<and>
   map (map out_id) (projr (paginate skew_db 1 10 1 (Some \<lparr>cursor_id = 201, cursor_createdAt = 5000\<rparr>))) =
     [[103], [101], [100]] \<and>
   200 \<notin> set (map out_id (concat
      (projr (paginate skew_db 1 10 1 (Some \<lparr>cursor_id = 201, cursor_createdAt = 5000\<rparr>))))) \<and>
   map (map out_id) (projr (paginate skew_db 1 10 1 None)) = [[201], [103], [101], [100]] \<and>
   map messages_id (thread_messages skew_db 10) = [100, 101, 103, 200, 201]"
proof -
  let ?m = "mk_message 200 10 2 ''one'' 5250 False"
  let ?mr = "mk_message 201 10 2 ''two'' 5500 False"
  let ?u = "mk_user 2 ''user_b'' ''bobby''"
  let ?c = "\<lparr>cursor_id = 201, cursor_createdAt = 5000\<rparr>"
  let ?r = "\<lambda>i c at. select_message (mk_message i 10 2 c at False, ?u)"
  let ?rest = "[[?r 103 ''bye'' 3000], [?r 101 ''yo'' 1000],
                [select_message (mk_message 100 10 1 ''hi'' 1000 False, mk_user 1 ''user_a'' ''alice'')]]"
  have m: "?m \<in> set (messages skew_db)"
    by (simp add: skew_db_def)
  have b: "baseCondition 10 ?m"
    by (simp add: baseCondition_def mk_message_def)
  have older: "messages_createdAt ?m < messages_createdAt ?mr \<or>
         (messages_createdAt ?m = messages_createdAt ?mr \<and> messages_id ?m < messages_id ?mr)"
    by (simp add: mk_message_def)
  have same: "js_Date (messages_createdAt ?m) = js_Date (messages_createdAt ?mr)"
    and micro: "js_Date (messages_createdAt ?m) \<noteq> messages_createdAt ?m"
    and j1: "js_Date 5250 = js_Date 5500" and j2: "js_Date 5250 \<noteq> 5250"
    by (simp_all add: mk_message_def js_Date_def)
  have c: "cursor_of (select_message (?mr, ?u)) = ?c"
    by (simp add: cursor_of_def select_message_def mk_message_def js_Date_def)
  have L: "messages_list skew_db 1 10 1 None = Inr ([select_message (?mr, ?u)], Some ?c)"
    by (rule skew_page_0)
  have P: "paginate skew_db 1 10 1 (Some ?c) = Inr ?rest"
    by (rule skew_run_1)
  have P0: "paginate skew_db 1 10 1 None = Inr ([select_message (?mr, ?u)] # ?rest)"
    by (rule skew_run_0)
  have TM: "map messages_id (thread_messages skew_db 10) = [100, 101, 103, 200, 201]"
    by (rule skew_thread_messages)
  have i: "messages_id ?m = 200"
    by (simp add: mk_message_def)
  note main = pagination_skips_within_millisecond [OF db_ok_skew m b older same micro,
      of 1 1 ?u ?rest, unfolded c, OF P]
  have out: "\<not> cursorCondition ?c ?m"
    by (rule main [THEN conjunct1])
  have gap: "200 \<notin> set (map out_id (concat (projr (paginate skew_db 1 10 1 (Some ?c)))))"
    using main [THEN conjunct2] unfolding P i by simp
  have ids: "map (map out_id) (projr (paginate skew_db 1 10 1 (Some ?c))) = [[103], [101], [100]]"
    unfolding P by (simp add: select_message_def mk_message_def)
  have ids0: "map (map out_id) (projr (paginate skew_db 1 10 1 None)) = [[201], [103], [101], [100]]"
    unfolding P0 by (simp add: select_message_def mk_message_def)
  show ?thesis
    by (intro conjI db_ok_skew m b j1 j2 L out ids gap ids0 TM)
qed

lemma filter_below_nth:
  fixes f :: "'a \<Rightarrow> 'k::linorder"
  shows "sorted_wrt (\<lambda>a b. f b < f a) xs \<Longrightarrow> i < length xs \<Longrightarrow>
         filter (\<lambda>r. f r < f (xs ! i)) xs = drop (Suc i) xs"
proof (induction xs arbitrary: i)
  case Nil
  then show ?case by simp
next
  case (Cons x xs)
  show ?case
  proof (cases i)
    case 0
    have "filter (\<lambda>r. f r < f x) xs = xs"
      using Cons.prems(1) by (auto simp: filter_id_conv)
    then show ?thesis using 0 by simp
  next
    case (Suc j)
    then have j: "j < length xs" using Cons.prems(2) by simp
    then have "f (xs ! j) < f x" using Cons.prems(1) by auto
    then have "\<not> f x < f (xs ! j)" by simp
    moreover have "filter (\<lambda>r. f r < f (xs ! j)) xs = drop (Suc j) xs"
      using Cons.IH [OF _ j] Cons.prems(1) by simp
    ultimately show ?thesis using Suc by simp
  qed
qed

lemma below_cursor_of:
  assumes "js_Date (messages_createdAt (fst q)) = messages_createdAt (fst q)"
  shows "below (Some (cursor_of (select_message q))) (fst r) \<longleftrightarrow> order_key r < order_key q"
  using assms
  by (auto simp: below_def cursorCondition_def cursor_of_def select_message_def order_key_def
      less_prod_def)

lemma query_rows_strict:
  assumes "db_ok d"
  shows "sorted_wrt (\<lambda>a b. order_key b < order_key a) (query_rows d t None)"
proof -
  from query_rows_thread_messages [OF assms, of t] obtain U where
    "rev (query_rows d t None) = map (\<lambda>m. (m, U m)) (filter (below None) (thread_messages d t))"
    by blast
  then have U: "rev (query_rows d t None) = map (\<lambda>m. (m, U m)) (thread_messages d t)"
    by (simp add: below_def)
  have "sorted_wrt (\<lambda>a b. order_key a < order_key b) (map (\<lambda>m. (m, U m)) (thread_messages d t))"
    using thread_messages_strict [OF assms, of t]
    by (simp add: sorted_wrt_map order_key_def message_key_def)
  then have "sorted_wrt (\<lambda>a b. order_key a < order_key b) (rev (query_rows d t None))"
    using U by simp
  then show ?thesis by (simp add: sorted_wrt_rev)
qed

lemma query_rows_after:
  assumes "db_ok d" and "whole_milliseconds d" and "i < length (query_rows d t None)"
  shows "query_rows d t (Some (cursor_of (select_message (query_rows d t None ! i)))) =
         drop (Suc i) (query_rows d t None)"
proof -
  let ?q = "query_rows d t None ! i"
  have "?q \<in> set (query_rows d t None)" using assms(3) by simp
  then have "?q \<in> set (messages_join_users d)" by (simp add: set_query_rows)
  then have "fst ?q \<in> set (messages d)" using join_row by blast
  then have al: "js_Date (messages_createdAt (fst ?q)) = messages_createdAt (fst ?q)"
    using assms(2) by (simp add: whole_milliseconds_def list_all_iff)
  show ?thesis
    using filter_below_nth [OF query_rows_strict [OF assms(1)] assms(3)]
    by (subst query_rows_filter) (simp add: below_cursor_of [OF al])
qed

lemma paginate_suffix:
  assumes ok: "db_ok d" and ms: "whole_milliseconds d"
    and th: "thread_exists d t" and pa: "is_participant d t caller" and lim: "1 \<le> limit"
  shows "k \<le> length (query_rows d t None) \<Longrightarrow> query_rows d t cur = drop k (query_rows d t None) \<Longrightarrow>
         \<exists>pages. paginate d caller t limit cur = Inr pages \<and>
                 concat (rev pages) = map select_message (rev (drop k (query_rows d t None)))"
proof (induction "length (query_rows d t None) - k" arbitrary: k cur rule: less_induct)
  case less
  let ?D = "query_rows d t None"
  let ?Q = "query_rows d t cur"
  note page = messages_list_page [OF th pa, of limit cur]
  show ?case
  proof (cases "limit < length ?Q")
    case False
    then have "messages_list d caller t limit cur = Inr (rev (map select_message ?Q), None)"
      using page by simp
    then have "paginate d caller t limit cur = Inr [rev (map select_message ?Q)]"
      by (subst paginate.simps) simp
    then show ?thesis using less.prems(2) by (simp add: rev_map)
  next
    case True
    define c where "c = cursor_of (select_message (?Q ! (limit - 1)))"
    have L: "messages_list d caller t limit cur =
             Inr (rev (map select_message (take limit ?Q)), Some c)"
      using page True lim by (simp add: c_def)
    have len: "limit < length ?D - k" using True less.prems(2) by simp
    have nth: "?Q ! (limit - 1) = ?D ! (k + limit - 1)"
      using less.prems len lim by (simp add: add.commute)
    have idx: "k + limit - 1 < length ?D" using len by simp
    have next_rows: "query_rows d t (Some c) = drop (k + limit) ?D"
      using query_rows_after [OF ok ms idx] lim unfolding c_def nth by simp
    have "length ?D - (k + limit) < length ?D - k" using len lim by simp
    moreover have "k + limit \<le> length ?D" using len by simp
    ultimately obtain pages where
      P: "paginate d caller t limit (Some c) = Inr pages"
         "concat (rev pages) = map select_message (rev (drop (k + limit) ?D))"
      using less.hyps [of "k + limit" "Some c"] next_rows by blast
    have "paginate d caller t limit cur = Inr (rev (map select_message (take limit ?Q)) # pages)"
      by (subst paginate.simps) (simp add: L P(1))
    moreover have "concat (rev (rev (map select_message (take limit ?Q)) # pages)) =
                   map select_message (rev (drop k ?D))"
    proof -
      have "drop (k + limit) ?D = drop limit (drop k ?D)"
        by (simp add: add.commute)
      then have "drop k ?D = take limit (drop k ?D) @ drop (k + limit) ?D"
        by (simp only: append_take_drop_id)
      then have "rev (drop k ?D) = rev (drop (k + limit) ?D) @ rev (take limit (drop k ?D))"
        by (metis rev_append)
      then show ?thesis using P(2) less.prems(2) by (simp add: rev_map)
    qed
    ultimately show ?thesis by blast
  qed
qed

text \<open>
  Where no stored \<open>createdAt\<close> has microseconds, the cursor is the stored key of its row
  and the pages tile the thread.
\<close>

lemma pagination_tiles_whole_milliseconds:
  assumes "db_ok d" and "whole_milliseconds d" and "thread_exists d t"
    and "is_participant d t caller" and "1 \<le> limit"
  shows "\<exists>pages. paginate d caller t limit None = Inr pages \<and>
           list_all2 (presents d) (concat (rev pages)) (thread_messages d t)"
proof -
  from query_rows_thread_messages [OF assms(1), of t] obtain U where
    U0: "rev (query_rows d t None) =
         map (\<lambda>m. (m, U m)) (filter (below None) (thread_messages d t))"
    and U: "\<forall>m \<in> set (messages d). U m \<in> set (users d) \<and> users_id (U m) = messages_senderId m"
    by blast
  from paginate_suffix [OF assms, of 0 None] obtain pages where
    P: "paginate d caller t limit None = Inr pages"
    "concat (rev pages) = map select_message (rev (query_rows d t None))"
    by auto
  have rows: "concat (rev pages) = map (\<lambda>m. select_message (m, U m)) (thread_messages d t)"
    using P(2) U0 by (simp add: comp_def below_def)
  have "set (thread_messages d t) \<subseteq> set (messages d)"
    by (auto simp: thread_messages_def)
  then have "list_all2 (presents d) (concat (rev pages)) (thread_messages d t)"
    unfolding rows using U
    by (auto simp: list_all2_map1 list_all2_same presents_def list_ex_iff)
  then show ?thesis using P(1) by blast
qed

section \<open>Creating a thread\<close>

lemma set_js_Set: "set (js_Set seen xs) = set seen \<union> set xs"
  by (induction xs arbitrary: seen) auto

lemma distinct_js_Set: "distinct seen \<Longrightarrow> distinct (js_Set seen xs)"
  by (induction xs arbitrary: seen) auto

lemma no_rows_for_missing_thread:
  "db_ok d \<Longrightarrow> t \<notin> set (map threads_id (threads d)) \<Longrightarrow>
   filter (\<lambda>p. threadParticipants_threadId p = t) (threadParticipants d) = []"
  by (auto simp: db_ok_def list_all_iff filter_empty_conv)

text \<open>
  C6. After a successful \<open>threads.create\<close> by \<open>caller\<close> with participant list \<open>P\<close>,
  the participant rows of the new thread name exactly the users of \<open>P\<close> and the caller,
  each once: the list \<open>P\<close> followed by the caller, with repetitions removed.
\<close>

theorem create_participants_exact:
  assumes "db_ok d" and "threads_create d caller name P newId now = (Inr t, d')"
  shows "threads_id t = newId \<and>
         participant_ids d' newId = js_Set [] (P @ [caller]) \<and>
         distinct (participant_ids d' newId) \<and>
         set (participant_ids d' newId) = set P \<union> {caller}"
proof -
  let ?rows = "map (\<lambda>userId. \<lparr>threadParticipants_threadId = newId,
                               threadParticipants_userId = userId,
                               threadParticipants_joinedAt = now\<rparr>) (js_Set [] (P @ [caller]))"
  from assms(2) have fresh: "newId \<notin> set (map threads_id (threads d))"
    and t: "threads_id t = newId"
    and d': "threadParticipants d' = threadParticipants d @ ?rows"
    by (auto simp: threads_create_def Let_def returned_thread_def split: if_splits)
  have old: "filter (\<lambda>p. threadParticipants_threadId p = newId) (threadParticipants d) = []"
    by (rule no_rows_for_missing_thread [OF assms(1) fresh])
  have ids: "participant_ids d' newId = js_Set [] (P @ [caller])"
    by (simp add: participant_ids_def d' old comp_def)
  show ?thesis
    using t ids by (simp add: set_js_Set distinct_js_Set)
qed

theorem create_participants_exact_witness:
  "db_ok demo_db \<and>
   (\<exists>t d'. threads_create demo_db 1 None [2, 3] 11 2000 = (Inr t, d') \<and>
      participant_ids d' 11 = [2, 3, 1] \<and> distinct (participant_ids d' 11) \<and>
      set (participant_ids d' 11) = {1, 2, 3} \<and> length (participant_ids d' 11) = 3) \<and>
   (\<exists>t d'. threads_create demo_db 1 None [1, 2, 3] 11 2000 = (Inr t, d') \<and>
      participant_ids d' 11 = [1, 2, 3] \<and> distinct (participant_ids d' 11) \<and>
      set (participant_ids d' 11) = {1, 2, 3} \<and> length (participant_ids d' 11) = 3)"
proof -
  let ?t = "\<lparr>threads_id = 11, threads_name = None, threads_createdAt = 2000,
             threads_updatedAt = 2000, threads_lastMessageAt = 2000\<rparr>"
  have "fst (threads_create demo_db 1 None [2, 3] 11 2000) = Inr ?t"
    by (simp add: threads_create_def demo_db_def mk_user_def participation_def Let_def
        returned_thread_def js_Date_def)
  then obtain d1 where c1: "threads_create demo_db 1 None [2, 3] 11 2000 = (Inr ?t, d1)"
    by (cases "threads_create demo_db 1 None [2, 3] 11 2000") simp
  have "fst (threads_create demo_db 1 None [1, 2, 3] 11 2000) = Inr ?t"
    by (simp add: threads_create_def demo_db_def mk_user_def participation_def Let_def
        returned_thread_def js_Date_def)
  then obtain d2 where c2: "threads_create demo_db 1 None [1, 2, 3] 11 2000 = (Inr ?t, d2)"
    by (cases "threads_create demo_db 1 None [1, 2, 3] 11 2000") simp
  have j1: "js_Set [] ([2, 3] @ [1::nat]) = [2, 3, 1]"
    and j2: "js_Set [] ([1, 2, 3] @ [1::nat]) = [1, 2, 3]"
    by simp_all
  have s1: "set [2, 3] \<union> {1::nat} = {1, 2, 3}" and s2: "set [1, 2, 3] \<union> {1::nat} = {1, 2, 3}"
    by auto
  from create_participants_exact [OF db_ok_demo c1] 
  have a: "participant_ids d1 11 = [2, 3, 1] \<and> distinct (participant_ids d1 11) \<and>
      set (participant_ids d1 11) = {1, 2, 3} \<and> length (participant_ids d1 11) = 3"
    unfolding j1 s1 by auto
  from create_participants_exact [OF db_ok_demo c2]
  have b: "participant_ids d2 11 = [1, 2, 3] \<and> distinct (participant_ids d2 11) \<and>
      set (participant_ids d2 11) = {1, 2, 3} \<and> length (participant_ids d2 11) = 3"
    unfolding j2 s2 by auto
  show ?thesis
    using db_ok_demo c1 a c2 b by blast
qed

text \<open>
  In general \<open>create\<close> answers BAD_REQUEST exactly when the list repeats an id or names
  an id that is no user's.
\<close>

lemma filter_length_card:
  assumes "distinct (map k xs)"
  shows "length (filter (\<lambda>u. k u \<in> A) xs) = card (A \<inter> set (map k xs))"
proof -
  have "distinct (map k (filter (\<lambda>u. k u \<in> A) xs))"
    using assms by (simp add: distinct_map_filter)
  then have "length (filter (\<lambda>u. k u \<in> A) xs) = card (set (map k (filter (\<lambda>u. k u \<in> A) xs)))"
    by (metis distinct_card length_map)
  moreover have "set (map k (filter (\<lambda>u. k u \<in> A) xs)) = A \<inter> set (map k xs)"
    by auto
  ultimately show ?thesis by simp
qed

lemma create_bad_request_iff:
  assumes "db_ok d"
  shows "fst (threads_create d caller name P newId now) = Inl BAD_REQUEST \<longleftrightarrow>
         \<not> (distinct P \<and> set P \<subseteq> set (map users_id (users d)))"
proof -
  let ?ids = "set (map users_id (users d))"
  have pk: "distinct (map users_id (users d))" using assms by (simp add: db_ok_def)
  have len: "length (filter (\<lambda>u. users_id u \<in> set P) (users d)) = card (set P \<inter> ?ids)"
    by (rule filter_length_card [OF pk])
  have "card (set P \<inter> ?ids) = length P \<longleftrightarrow> distinct P \<and> set P \<subseteq> ?ids"
  proof
    assume eq: "card (set P \<inter> ?ids) = length P"
    have "card (set P \<inter> ?ids) \<le> card (set P)" by (simp add: card_mono)
    moreover have "card (set P) \<le> length P" by (rule card_length)
    ultimately have c: "card (set P) = length P" and i: "card (set P \<inter> ?ids) = card (set P)"
      using eq by simp_all
    have "set P \<inter> ?ids = set P"
      using i by (intro card_subset_eq) auto
    then show "distinct P \<and> set P \<subseteq> ?ids"
      using c by (auto simp: card_distinct)
  next
    assume "distinct P \<and> set P \<subseteq> ?ids"
    then show "card (set P \<inter> ?ids) = length P"
      by (simp add: Int_absorb2 distinct_card)
  qed
  then show ?thesis
    using len by (auto simp: threads_create_def Let_def)
qed

lemma create_bad_request_unchanged:
  "fst (threads_create d caller name P newId now) = Inl BAD_REQUEST \<Longrightarrow>
   threads_create d caller name P newId now = (Inl BAD_REQUEST, d)"
  by (auto simp: threads_create_def Let_def split: if_splits)

text \<open>
  C5 at a list that repeats a valid id. For an existing user \<open>u\<close>, every element of
  the list that names \<open>u\<close> twice is the id of an existing user, and \<open>threads.create\<close>
  still answers BAD_REQUEST ("One or more participant IDs are invalid") and stores
  nothing: it compares the number of matching user rows, one, with the length of the
  list, two.
\<close>

theorem create_rejects_repeated_valid_id:
  assumes "db_ok d" and "u \<in> set (users d)"
  shows "list_all (\<lambda>i. i \<in> set (map users_id (users d))) [users_id u, users_id u] \<and>
         threads_create d caller name [users_id u, users_id u] newId now = (Inl BAD_REQUEST, d)"
proof -
  have "\<not> distinct [users_id u, users_id u]" by simp
  then have "fst (threads_create d caller name [users_id u, users_id u] newId now) = Inl BAD_REQUEST"
    using create_bad_request_iff [OF assms(1)] by blast
  then show ?thesis
    using assms(2) create_bad_request_unchanged by simp
qed

theorem create_rejects_repeated_valid_id_witness:
  "db_ok demo_db \<and> mk_user 2 ''user_b'' ''bobby'' \<in> set (users demo_db) \<and>
   list_all (\<lambda>i. i \<in> set (map users_id (users demo_db))) [2, 2] \<and>
   threads_create demo_db 1 None [2, 2] 11 2000 = (Inl BAD_REQUEST, demo_db)"
proof -
  have u: "mk_user 2 ''user_b'' ''bobby'' \<in> set (users demo_db)"
    by (simp add: demo_db_def)
  have i: "users_id (mk_user 2 ''user_b'' ''bobby'') = 2"
    by (simp add: mk_user_def)
  show ?thesis
    using create_rejects_repeated_valid_id [OF db_ok_demo u, of 1 None 11 2000] db_ok_demo u
    unfolding i by simp
qed

section \<open>Client reconciliation of a new-message event\<close>

lemma findIndex_None: "findIndex P xs = None \<longleftrightarrow> \<not> list_ex P xs"
  by (induction xs) auto

lemma findIndex_Some:
  "findIndex P xs = Some i \<Longrightarrow>
   i < length xs \<and> P (xs ! i) \<and> (\<forall>j < i. \<not> P (xs ! j))"
proof (induction xs arbitrary: i)
  case Nil
  then show ?case by simp
next
  case (Cons x xs)
  show ?case
  proof (cases "P x")
    case True
    then show ?thesis using Cons.prems by simp
  next
    case False
    with Cons.prems obtain k where k: "findIndex P xs = Some k" "i = Suc k"
      by auto
    from Cons.IH [OF k(1)] False k(2) show ?thesis
      by (auto simp: less_Suc_eq_0_disj)
  qed
qed

lemma filter_update_first:
  assumes "i < length xs" and "P (xs ! i)" and "\<not> P y"
  shows "length (filter P (xs[i := y])) = length (filter P xs) - 1"
proof -
  have xs: "xs = take i xs @ xs ! i # drop (Suc i) xs"
    using assms(1) by (simp add: id_take_nth_drop)
  have "xs[i := y] = take i xs @ y # drop (Suc i) xs"
    using assms(1) by (simp add: upd_conv_take_nth_drop)
  then have "length (filter P (xs[i := y])) = length (filter P (take i xs)) + length (filter P (drop (Suc i) xs))"
    using assms(3) by simp
  moreover have "length (filter P xs) = length (filter P (take i xs)) + 1 + length (filter P (drop (Suc i) xs))"
    by (subst xs) (simp add: assms(2))
  ultimately show ?thesis by simp
qed

text \<open>
  C9, as the code has it. When an entry with the event's identifier is in the list,
  \<open>handleNewMessage\<close> returns the list as it is. Otherwise it puts the confirmed entry
  in the place of the first placeholder (identifier starting with \<open>optimistic-\<close>) whose
  content and sender id are the event's, and appends the entry only when there is no such
  placeholder. In this second case the confirmed entry is in the result, and, the
  event's identifier not being a placeholder's, the result holds exactly one matching
  placeholder fewer than the list did (none fewer when it held none): other matching
  placeholders stay.
\<close>

theorem handleNewMessage_reconciles:
  "(list_ex (\<lambda>msg. Message_id msg = MessageEvent_id e) prev \<longrightarrow>
      handleNewMessage e prev = prev) \<and>
   (\<not> list_ex (\<lambda>msg. Message_id msg = MessageEvent_id e) prev \<longrightarrow>
      (case findIndex (is_optimistic_match (newMessage_of e)) prev of
         None \<Rightarrow> \<not> list_ex (is_optimistic_match (newMessage_of e)) prev \<and>
                 handleNewMessage e prev = prev @ [newMessage_of e]
       | Some i \<Rightarrow> i < length prev \<and> is_optimistic_match (newMessage_of e) (prev ! i) \<and>
                   (\<forall>j < i. \<not> is_optimistic_match (newMessage_of e) (prev ! j)) \<and>
                   handleNewMessage e prev =
                     take i prev @ [newMessage_of e] @ drop (Suc i) prev) \<and>
      newMessage_of e \<in> set (handleNewMessage e prev) \<and>
      (\<not> prefix ''optimistic-'' (MessageEvent_id e) \<longrightarrow>
         length (filter (is_optimistic_match (newMessage_of e)) (handleNewMessage e prev)) =
         length (filter (is_optimistic_match (newMessage_of e)) prev) - 1))"
proof -
  let ?n = "newMessage_of e"
  let ?P = "is_optimistic_match ?n"
  have id: "Message_id ?n = MessageEvent_id e" by (simp add: newMessage_of_def)
  have a: "handleNewMessage e prev = prev"
    if "list_ex (\<lambda>msg. Message_id msg = MessageEvent_id e) prev"
    using that by (simp add: handleNewMessage_def id)
  have b: "(case findIndex ?P prev of
         None \<Rightarrow> \<not> list_ex ?P prev \<and> handleNewMessage e prev = prev @ [?n]
       | Some i \<Rightarrow> i < length prev \<and> ?P (prev ! i) \<and> (\<forall>j < i. \<not> ?P (prev ! j)) \<and>
                   handleNewMessage e prev = take i prev @ [?n] @ drop (Suc i) prev) \<and>
      ?n \<in> set (handleNewMessage e prev) \<and>
      (\<not> prefix ''optimistic-'' (MessageEvent_id e) \<longrightarrow>
         length (filter ?P (handleNewMessage e prev)) = length (filter ?P prev) - 1)"
    if ne: "\<not> list_ex (\<lambda>msg. Message_id msg = MessageEvent_id e) prev"
  proof (cases "findIndex ?P prev")
    case None
    then have no: "\<not> list_ex ?P prev" by (simp add: findIndex_None)
    then have "filter ?P prev = []" by (auto simp: filter_empty_conv list_ex_iff)
    moreover have "handleNewMessage e prev = prev @ [?n]"
      using ne None by (simp add: handleNewMessage_def id)
    moreover have "\<not> ?P ?n" if "\<not> prefix ''optimistic-'' (MessageEvent_id e)"
      using that by (simp add: is_optimistic_match_def id)
    ultimately show ?thesis using None no by simp
  next
    case (Some i)
    from findIndex_Some [OF Some] have i: "i < length prev" "?P (prev ! i)"
      "\<forall>j < i. \<not> ?P (prev ! j)" by simp_all
    have h: "handleNewMessage e prev = prev[i := ?n]"
      using ne Some by (simp add: handleNewMessage_def id)
    have upd: "prev[i := ?n] = take i prev @ [?n] @ drop (Suc i) prev"
      using i(1) by (simp add: upd_conv_take_nth_drop)
    have cnt: "length (filter ?P (prev[i := ?n])) = length (filter ?P prev) - 1"
      if "\<not> prefix ''optimistic-'' (MessageEvent_id e)"
      using filter_update_first [of i prev ?P ?n] i(1,2) that
      by (simp add: is_optimistic_match_def id)
    have mem: "?n \<in> set (prev[i := ?n])" using i(1) by (simp add: set_update_memI)
    show ?thesis using Some i h upd cnt mem by simp
  qed
  show ?thesis using a b by blast
qed

theorem handleNewMessage_reconciles_witness:
  "handleNewMessage (mk_MessageEvent ''m1'' ''hi'' ''u1'') [mk_Message ''m1'' ''hi'' ''u1''] =
     [mk_Message ''m1'' ''hi'' ''u1''] \<and>
   handleNewMessage (mk_MessageEvent ''m1'' ''hi'' ''u1'')
       [mk_Message ''m0'' ''yo'' ''u2'', mk_Message ''optimistic-1'' ''hi'' ''u1''] =
     [mk_Message ''m0'' ''yo'' ''u2'', mk_Message ''m1'' ''hi'' ''u1''] \<and>
   length (filter (is_optimistic_match (newMessage_of (mk_MessageEvent ''m1'' ''hi'' ''u1'')))
      (handleNewMessage (mk_MessageEvent ''m1'' ''hi'' ''u1'')
       [mk_Message ''m0'' ''yo'' ''u2'', mk_Message ''optimistic-1'' ''hi'' ''u1''])) = 0 \<and>
   handleNewMessage (mk_MessageEvent ''m1'' ''hi'' ''u1'') [mk_Message ''m0'' ''yo'' ''u2''] =
     [mk_Message ''m0'' ''yo'' ''u2'', mk_Message ''m1'' ''hi'' ''u1'']"
proof -
  let ?e = "mk_MessageEvent ''m1'' ''hi'' ''u1''"
  let ?p1 = "[mk_Message ''m1'' ''hi'' ''u1'']"
  let ?p2 = "[mk_Message ''m0'' ''yo'' ''u2'', mk_Message ''optimistic-1'' ''hi'' ''u1'']"
  let ?p3 = "[mk_Message ''m0'' ''yo'' ''u2'']"
  have n: "newMessage_of ?e = mk_Message ''m1'' ''hi'' ''u1''"
    by (simp add: newMessage_of_def mk_MessageEvent_def mk_Message_def)
  have h1: "list_ex (\<lambda>msg. Message_id msg = MessageEvent_id ?e) ?p1"
    by (simp add: mk_MessageEvent_def mk_Message_def)
  have h2: "\<not> list_ex (\<lambda>msg. Message_id msg = MessageEvent_id ?e) ?p2"
    by (simp add: mk_MessageEvent_def mk_Message_def)
  have h3: "\<not> list_ex (\<lambda>msg. Message_id msg = MessageEvent_id ?e) ?p3"
    by (simp add: mk_MessageEvent_def mk_Message_def)
  have np: "\<not> prefix ''optimistic-'' (MessageEvent_id ?e)"
    by (simp add: mk_MessageEvent_def)
  have f2: "findIndex (is_optimistic_match (newMessage_of ?e)) ?p2 = Some 1"
    by (simp add: n is_optimistic_match_def mk_Message_def)
  have f3: "findIndex (is_optimistic_match (newMessage_of ?e)) ?p3 = None"
    by (simp add: n is_optimistic_match_def mk_Message_def)
  have c2: "length (filter (is_optimistic_match (newMessage_of ?e)) ?p2) = 1"
    by (simp add: n is_optimistic_match_def mk_Message_def)
  have a: "handleNewMessage ?e ?p1 = ?p1"
    using handleNewMessage_reconciles [of ?e ?p1, THEN conjunct1, THEN mp, OF h1] .
  note r2 = handleNewMessage_reconciles [of ?e ?p2, THEN conjunct2, THEN mp, OF h2]
  have b: "handleNewMessage ?e ?p2 = [mk_Message ''m0'' ''yo'' ''u2'', mk_Message ''m1'' ''hi'' ''u1'']"
    using r2 [THEN conjunct1] unfolding f2 by (simp add: n)
  have c: "length (filter (is_optimistic_match (newMessage_of ?e)) (handleNewMessage ?e ?p2)) = 0"
    using r2 [THEN conjunct2, THEN conjunct2, THEN mp, OF np] unfolding c2 by simp
  note r3 = handleNewMessage_reconciles [of ?e ?p3, THEN conjunct2, THEN mp, OF h3]
  have d: "handleNewMessage ?e ?p3 = [mk_Message ''m0'' ''yo'' ''u2'', mk_Message ''m1'' ''hi'' ''u1'']"
    using r3 [THEN conjunct1] unfolding f3 by (simp add: n)
  show ?thesis
    by (intro conjI a b c d)
qed

text \<open>
  The claim as written fails: with two placeholders of the same content and sender, the
  first is replaced and the second stays next to the confirmed entry.
\<close>

theorem handleNewMessage_leaves_second_placeholder:
  "\<not> list_ex (\<lambda>msg. Message_id msg = ''m1'') [mk_Message ''optimistic-1'' ''hi'' ''u1'', mk_Message ''optimistic-2'' ''hi'' ''u1''] \<and>
   handleNewMessage (mk_MessageEvent ''m1'' ''hi'' ''u1'')
     [mk_Message ''optimistic-1'' ''hi'' ''u1'', mk_Message ''optimistic-2'' ''hi'' ''u1''] =
     [mk_Message ''m1'' ''hi'' ''u1'', mk_Message ''optimistic-2'' ''hi'' ''u1''] \<and>
   is_optimistic_match (newMessage_of (mk_MessageEvent ''m1'' ''hi'' ''u1'')) (mk_Message ''optimistic-2'' ''hi'' ''u1'')"
  by (simp add: handleNewMessage_def mk_Message_def mk_MessageEvent_def newMessage_of_def is_optimistic_match_def)

text \<open>
  A placeholder also stays when the identifier is already in the list.
\<close>

lemma handleNewMessage_known_id_keeps_placeholder:
  "handleNewMessage (mk_MessageEvent ''m1'' ''hi'' ''u1'')
     [mk_Message ''m1'' ''hi'' ''u1'', mk_Message ''optimistic-2'' ''hi'' ''u1''] =
     [mk_Message ''m1'' ''hi'' ''u1'', mk_Message ''optimistic-2'' ''hi'' ''u1'']"
  by (simp add: handleNewMessage_def mk_Message_def mk_MessageEvent_def newMessage_of_def is_optimistic_match_def)

section \<open>Usernames\<close>





text \<open>
  A base handle of the full 64 characters leaves no room for the suffix: the fallback is
  the base handle again.
\<close>

lemma fallbackUsername_full_length:
  "length b = 64 \<Longrightarrow> fallbackUsername b uuid = b"
  by (simp add: fallbackUsername_def)









section \<open>User search\<close>

text \<open>
  C10. The filter handed to \<open>where\<close> is \<open>ilike(...) && ne(...)\<close>, which JavaScript
  evaluates to its right operand. The result of \<open>searchByUsername\<close> is therefore the
  first \<open>limit\<close> users other than the caller, the same for any two query strings, whether
  or not a stored username matches either.
\<close>

theorem searchByUsername_ignores_query:
  "js_and (Ilike_username (''%'' @ q1 @ ''%'')) (Ne_id caller) = Ne_id caller \<and>
   users_searchByUsername d caller q1 limit = users_searchByUsername d caller q2 limit \<and>
   users_searchByUsername d caller q1 limit =
     map select_user (take limit (filter (\<lambda>u. users_id u \<noteq> caller) (users d)))"
proof -
  have w: "js_and (Ilike_username p) (Ne_id caller) = Ne_id caller" for p
    by (simp add: js_and_def js_truthy_def)
  have "sql_holds (Ne_id caller) = (\<lambda>u. users_id u \<noteq> caller)"
    by (rule ext) simp
  then show ?thesis
    by (simp add: users_searchByUsername_def w)
qed

text \<open>
  On the small database: no username contains \<open>zzz\<close>, and alice still finds bobby and
  charlie, as she does when she searches for \<open>bob\<close>.
\<close>

lemma searchByUsername_demo:
  "searchUsersSchema ''zzz'' 10 \<and> searchUsersSchema ''bob'' 10 \<and>
   \<not> list_ex (sql_holds (Ilike_username ''%zzz%'')) (users demo_db) \<and>
   map user_out_username (users_searchByUsername demo_db 1 ''zzz'' 10) =
     [''bobby'', ''charlie''] \<and>
   map user_out_username (users_searchByUsername demo_db 1 ''bob'' 10) =
     [''bobby'', ''charlie'']"
  by code_simp

end
